theory Spec2Isabelle
  imports
    Main
    "HOL-Library.Word"
    "HOL-Library.Multiset"
    "HOL-Library.Char_ord"
    "HOL-Library.List_Lexorder"
    "HOL-Library.Signed_Division"
begin

section \<open>The record and its ordering\<close>

text \<open>
  \<^verbatim>\<open>class LotteryTicket\<close>: \<^verbatim>\<open>long long ticketNumber; int cost; std::string lotteryDate;
  int winAmount\<close>. The integer fields are machine words read as two's complement
  (\<open>sint\<close>); the date is a byte string. \<^verbatim>\<open>std::string\<close>'s \<^verbatim>\<open><\<close> compares
  bytes as unsigned values, a proper prefix being smaller, which is the order of
  \<open>char list\<close> here.
\<close>

record LotteryTicket =
  ticketNumber :: "64 word"
  cost :: "32 word"
  lotteryDate :: string
  winAmount :: "32 word"

text \<open>\<^verbatim>\<open>bool operator<(const LotteryTicket& other) const\<close>\<close>

definition ticket_less :: "LotteryTicket \<Rightarrow> LotteryTicket \<Rightarrow> bool" where
  "ticket_less this other =
     (if lotteryDate this \<noteq> lotteryDate other then lotteryDate this < lotteryDate other
      else if winAmount this \<noteq> winAmount other
        then sint (winAmount this) > sint (winAmount other)
      else sint (ticketNumber this) < sint (ticketNumber other))"

text \<open>\<^verbatim>\<open>operator>\<close>, \<^verbatim>\<open>operator<=\<close> and \<^verbatim>\<open>operator>=\<close>, each written through \<^verbatim>\<open><\<close>
  as in the class.\<close>

definition ticket_greater :: "LotteryTicket \<Rightarrow> LotteryTicket \<Rightarrow> bool" where
  "ticket_greater this other = ticket_less other this"

definition ticket_less_eq :: "LotteryTicket \<Rightarrow> LotteryTicket \<Rightarrow> bool" where
  "ticket_less_eq this other = (\<not> ticket_greater this other)"

definition ticket_greater_eq :: "LotteryTicket \<Rightarrow> LotteryTicket \<Rightarrow> bool" where
  "ticket_greater_eq this other = (\<not> ticket_less this other)"

text \<open>The sort key of a ticket: everything the comparison reads.\<close>

definition ticket_key :: "LotteryTicket \<Rightarrow> string \<times> 32 word \<times> 64 word" where
  "ticket_key t = (lotteryDate t, winAmount t, ticketNumber t)"

section \<open>Vector access\<close>

text \<open>
  The algorithms index a \<^verbatim>\<open>std::vector\<close> with variables of type \<^verbatim>\<open>int\<close>, which is 32 bits
  wide: an index variable is a \<open>32 word\<close> here, compared through \<open>sint\<close>, so that
  \<^verbatim>\<open>n - 1\<close> is \<open>-1\<close> on the empty vector and the loops count down through \<open>0\<close> as
  written. \<^verbatim>\<open>int n = arr.size()\<close> keeps the low 32 bits of the size
  (\<open>of_nat (length arr)\<close>): from \<open>2^31\<close> elements on \<open>n\<close> is not the size any more, and it
  is negative up to \<open>2^32 - 1\<close> elements. Arithmetic on index variables wraps around in
  two's complement; the source leaves signed overflow undefined, and wrapping is what the
  usual compilers make of it.

  \<^verbatim>\<open>arr[i]\<close> converts \<open>i\<close> to the unsigned \<^verbatim>\<open>size_type\<close>, which sends a negative \<open>i\<close> far
  beyond the size of any vector: \<open>at\<close> and \<open>swap\<close> take the value \<open>sint i\<close> of the index.
  \<^verbatim>\<open>operator[]\<close> outside \<open>0 \<le> i < size\<close> is undefined behaviour in the source; the model
  stops there with \<open>IndexOutOfBounds\<close>.
\<close>

text \<open>The ways a run stops without a result: an index outside a vector, and the three
  exceptions the program can throw (\<^verbatim>\<open>std::runtime_error\<close> with its message from the
  two file functions, \<^verbatim>\<open>std::invalid_argument\<close> and \<^verbatim>\<open>std::out_of_range\<close> from
  \<^verbatim>\<open>std::stoll\<close> and \<^verbatim>\<open>std::stoi\<close>).\<close>

datatype error = IndexOutOfBounds | RuntimeError string | InvalidArgument | OutOfRange

text \<open>\<^verbatim>\<open>arr[i]\<close> read.\<close>

definition at :: "'a list \<Rightarrow> int \<Rightarrow> error + 'a" where
  "at arr i = (if 0 \<le> i \<and> i < int (length arr) then Inr (arr ! nat i) else Inl IndexOutOfBounds)"

text \<open>\<^verbatim>\<open>std::swap(arr[i], arr[j])\<close>\<close>

definition swap :: "'a list \<Rightarrow> int \<Rightarrow> int \<Rightarrow> error + 'a list" where
  "swap arr i j =
     (if 0 \<le> i \<and> i < int (length arr) \<and> 0 \<le> j \<and> j < int (length arr)
      then Inr (arr[nat i := arr ! nat j, nat j := arr ! nat i])
      else Inl IndexOutOfBounds)"

section \<open>Selection sort\<close>

text \<open>The inner loop \<^verbatim>\<open>for (int j = i + 1; j < n; j++) if (arr[j] < arr[min_idx]) min_idx = j;\<close>
  as a function of the loop variables; it returns \<^verbatim>\<open>min_idx\<close>. The loop ends: \<open>j\<close> is below
  \<open>n\<close> when it is incremented, so the increment does not wrap.\<close>

function selectionSort_inner ::
  "LotteryTicket list \<Rightarrow> 32 word \<Rightarrow> 32 word \<Rightarrow> 32 word \<Rightarrow> error + 32 word" where
  "selectionSort_inner arr n min_idx j =
     (if sint j < sint n then
        (case at arr (sint j) of Inl e \<Rightarrow> Inl e | Inr x \<Rightarrow>
          (case at arr (sint min_idx) of Inl e \<Rightarrow> Inl e | Inr y \<Rightarrow>
             selectionSort_inner arr n (if ticket_less x y then j else min_idx) (j + 1)))
      else Inr min_idx)"
  by pat_completeness auto
termination
proof (relation "measure (\<lambda>(arr, n, min_idx, j). nat (sint n - sint j))", goal_cases)
  case 1
  show ?case by simp
next
  case (2 arr n min_idx j x y)
  have "sint j < 2 ^ (LENGTH(32) - 1) - 1"
    using 2(1) sint_lt [of n] by simp
  then have "sint (j + 1) = sint j + 1"
    using sint_ge [of j] by (simp add: sint_word_ariths signed_take_bit_int_eq_self)
  then show ?case
    using 2(1) by simp
qed

text \<open>The outer loop \<^verbatim>\<open>for (int i = 0; i < n - 1; i++)\<close>.\<close>

function selectionSort_outer ::
  "LotteryTicket list \<Rightarrow> 32 word \<Rightarrow> 32 word \<Rightarrow> error + LotteryTicket list" where
  "selectionSort_outer arr n i =
     (if sint i < sint (n - 1) then
        (case selectionSort_inner arr n i (i + 1) of Inl e \<Rightarrow> Inl e | Inr min_idx \<Rightarrow>
          (case (if min_idx \<noteq> i then swap arr (sint i) (sint min_idx) else Inr arr) of
             Inl e \<Rightarrow> Inl e
           | Inr arr' \<Rightarrow> selectionSort_outer arr' n (i + 1)))
      else Inr arr)"
  by pat_completeness auto
termination
proof (relation "measure (\<lambda>(arr, n, i). nat (sint (n - 1) - sint i))", goal_cases)
  case 1
  show ?case by simp
next
  case (2 arr n i min_idx arr')
  have "sint i < 2 ^ (LENGTH(32) - 1) - 1"
    using 2(1) sint_lt [of "n - 1"] by simp
  then have "sint (i + 1) = sint i + 1"
    using sint_ge [of i] by (simp add: sint_word_ariths signed_take_bit_int_eq_self)
  then show ?case
    using 2(1) by simp
qed

text \<open>\<^verbatim>\<open>int n = arr.size();\<close> and the outer loop from \<open>0\<close>.\<close>

definition selectionSort :: "LotteryTicket list \<Rightarrow> error + LotteryTicket list" where
  "selectionSort arr = (let n = of_nat (length arr) in selectionSort_outer arr n 0)"

section \<open>Bubble sort\<close>

text \<open>The inner loop \<^verbatim>\<open>for (int j = 0; j < n - i - 1; j++)
  if (arr[j] > arr[j + 1]) std::swap(arr[j], arr[j + 1]);\<close>\<close>

function bubbleSort_inner ::
  "LotteryTicket list \<Rightarrow> 32 word \<Rightarrow> 32 word \<Rightarrow> 32 word \<Rightarrow> error + LotteryTicket list" where
  "bubbleSort_inner arr n i j =
     (if sint j < sint (n - i - 1) then
        (case at arr (sint j) of Inl e \<Rightarrow> Inl e | Inr x \<Rightarrow>
          (case at arr (sint (j + 1)) of Inl e \<Rightarrow> Inl e | Inr y \<Rightarrow>
            (case (if ticket_greater x y then swap arr (sint j) (sint (j + 1)) else Inr arr) of
               Inl e \<Rightarrow> Inl e
             | Inr arr' \<Rightarrow> bubbleSort_inner arr' n i (j + 1))))
      else Inr arr)"
  by pat_completeness auto
termination
proof (relation "measure (\<lambda>(arr, n, i, j). nat (sint (n - i - 1) - sint j))", goal_cases)
  case 1
  show ?case by simp
next
  case (2 arr n i j x y arr')
  have "sint j < 2 ^ (LENGTH(32) - 1) - 1"
    using 2(1) sint_lt [of "n - i - 1"] by simp
  then have "sint (j + 1) = sint j + 1"
    using sint_ge [of j] by (simp add: sint_word_ariths signed_take_bit_int_eq_self)
  then show ?case
    using 2(1) by simp
qed

text \<open>The outer loop \<^verbatim>\<open>for (int i = 0; i < n - 1; i++)\<close>: one pass per iteration.\<close>

function bubbleSort_outer ::
  "LotteryTicket list \<Rightarrow> 32 word \<Rightarrow> 32 word \<Rightarrow> error + LotteryTicket list" where
  "bubbleSort_outer arr n i =
     (if sint i < sint (n - 1) then
        (case bubbleSort_inner arr n i 0 of Inl e \<Rightarrow> Inl e | Inr arr' \<Rightarrow>
           bubbleSort_outer arr' n (i + 1))
      else Inr arr)"
  by pat_completeness auto
termination
proof (relation "measure (\<lambda>(arr, n, i). nat (sint (n - 1) - sint i))", goal_cases)
  case 1
  show ?case by simp
next
  case (2 arr n i arr')
  have "sint i < 2 ^ (LENGTH(32) - 1) - 1"
    using 2(1) sint_lt [of "n - 1"] by simp
  then have "sint (i + 1) = sint i + 1"
    using sint_ge [of i] by (simp add: sint_word_ariths signed_take_bit_int_eq_self)
  then show ?case
    using 2(1) by simp
qed

definition bubbleSort :: "LotteryTicket list \<Rightarrow> error + LotteryTicket list" where
  "bubbleSort arr = (let n = of_nat (length arr) in bubbleSort_outer arr n 0)"

text \<open>
  The same two loops with three ghost counters threaded through: the passes started
  (iterations of the outer loop), the comparisons \<^verbatim>\<open>arr[j] > arr[j + 1]\<close> evaluated
  and the swaps made. The counters are never read by the loops.
\<close>

record bubble_counters =
  passes :: nat
  comparisons :: nat
  swaps :: nat

function bubbleSort_inner_counted ::
  "LotteryTicket list \<Rightarrow> bubble_counters \<Rightarrow> 32 word \<Rightarrow> 32 word \<Rightarrow> 32 word \<Rightarrow>
   error + LotteryTicket list \<times> bubble_counters" where
  "bubbleSort_inner_counted arr c n i j =
     (if sint j < sint (n - i - 1) then
        (case at arr (sint j) of Inl e \<Rightarrow> Inl e | Inr x \<Rightarrow>
          (case at arr (sint (j + 1)) of Inl e \<Rightarrow> Inl e | Inr y \<Rightarrow>
            (case (if ticket_greater x y
                   then (case swap arr (sint j) (sint (j + 1)) of Inl e \<Rightarrow> Inl e
                         | Inr arr' \<Rightarrow>
                             Inr (arr', c\<lparr>comparisons := comparisons c + 1, swaps := swaps c + 1\<rparr>))
                   else Inr (arr, c\<lparr>comparisons := comparisons c + 1\<rparr>)) of Inl e \<Rightarrow> Inl e
             | Inr (arr', c') \<Rightarrow> bubbleSort_inner_counted arr' c' n i (j + 1))))
      else Inr (arr, c))"
  by pat_completeness auto
termination
proof (relation "measure (\<lambda>(arr, c, n, i, j). nat (sint (n - i - 1) - sint j))", goal_cases)
  case 1
  show ?case by simp
next
  case (2 arr c n i j x y p arr' c')
  have "sint j < 2 ^ (LENGTH(32) - 1) - 1"
    using 2(1) sint_lt [of "n - i - 1"] by simp
  then have "sint (j + 1) = sint j + 1"
    using sint_ge [of j] by (simp add: sint_word_ariths signed_take_bit_int_eq_self)
  then show ?case
    using 2(1) by simp
qed

function bubbleSort_outer_counted ::
  "LotteryTicket list \<Rightarrow> bubble_counters \<Rightarrow> 32 word \<Rightarrow> 32 word \<Rightarrow>
   error + LotteryTicket list \<times> bubble_counters" where
  "bubbleSort_outer_counted arr c n i =
     (if sint i < sint (n - 1) then
        (case bubbleSort_inner_counted arr (c\<lparr>passes := passes c + 1\<rparr>) n i 0 of Inl e \<Rightarrow> Inl e
         | Inr (arr', c') \<Rightarrow> bubbleSort_outer_counted arr' c' n (i + 1))
      else Inr (arr, c))"
  by pat_completeness auto
termination
proof (relation "measure (\<lambda>(arr, c, n, i). nat (sint (n - 1) - sint i))", goal_cases)
  case 1
  show ?case by simp
next
  case (2 arr c n i p arr' c')
  have "sint i < 2 ^ (LENGTH(32) - 1) - 1"
    using 2(1) sint_lt [of "n - 1"] by simp
  then have "sint (i + 1) = sint i + 1"
    using sint_ge [of i] by (simp add: sint_word_ariths signed_take_bit_int_eq_self)
  then show ?case
    using 2(1) by simp
qed

definition bubbleSort_counted :: "LotteryTicket list \<Rightarrow> error + LotteryTicket list \<times> bubble_counters" where
  "bubbleSort_counted arr =
     (let n = of_nat (length arr)
      in bubbleSort_outer_counted arr \<lparr>passes = 0, comparisons = 0, swaps = 0\<rparr> n 0)"

section \<open>Heap sort\<close>

text \<open>\<^verbatim>\<open>if (c < n && arr[c] > arr[largest]) largest = c;\<close> \<^verbatim>\<open>&&\<close> does not read the
  vector when \<^verbatim>\<open>c < n\<close> is false.\<close>

definition heapify_pick ::
  "LotteryTicket list \<Rightarrow> 32 word \<Rightarrow> 32 word \<Rightarrow> 32 word \<Rightarrow> error + 32 word" where
  "heapify_pick arr n c largest =
     (if sint c < sint n then
        (case at arr (sint c) of Inl e \<Rightarrow> Inl e | Inr x \<Rightarrow>
          (case at arr (sint largest) of Inl e \<Rightarrow> Inl e | Inr y \<Rightarrow>
             Inr (if ticket_greater x y then c else largest)))
      else Inr largest)"

text \<open>\<^verbatim>\<open>heapify\<close> calls itself; \<open>None\<close> is the call that never returns. \<^verbatim>\<open>2 * i + 1\<close> and
  \<^verbatim>\<open>2 * i + 2\<close> wrap around from \<open>i = 2^30\<close> and \<open>i = 2^30 - 1\<close> on.\<close>

partial_function (option) heapify ::
  "LotteryTicket list \<Rightarrow> 32 word \<Rightarrow> 32 word \<Rightarrow> (error + LotteryTicket list) option" where
  "heapify arr n i =
     (let largest = i; left = 2 * i + 1; right = 2 * i + 2 in
      case heapify_pick arr n left largest of Inl e \<Rightarrow> Some (Inl e) | Inr largest \<Rightarrow>
       (case heapify_pick arr n right largest of Inl e \<Rightarrow> Some (Inl e) | Inr largest \<Rightarrow>
          if largest \<noteq> i then
            (case swap arr (sint i) (sint largest) of Inl e \<Rightarrow> Some (Inl e)
             | Inr arr' \<Rightarrow> heapify arr' n largest)
          else Some (Inr arr)))"

text \<open>\<^verbatim>\<open>for (int i = n / 2 - 1; i >= 0; i--) heapify(arr, n, i);\<close>\<close>

function heapSort_build ::
  "LotteryTicket list \<Rightarrow> 32 word \<Rightarrow> 32 word \<Rightarrow> (error + LotteryTicket list) option" where
  "heapSort_build arr n i =
     (if sint i \<ge> 0 then
        (case heapify arr n i of None \<Rightarrow> None | Some (Inl e) \<Rightarrow> Some (Inl e)
         | Some (Inr arr') \<Rightarrow> heapSort_build arr' n (i - 1))
      else Some (Inr arr))"
  by pat_completeness auto
termination
proof (relation "measure (\<lambda>(arr, n, i). nat (sint i + 1))", goal_cases)
  case 1
  show ?case by simp
next
  case (2 arr n i r arr')
  have "sint (i - 1) = sint i - 1"
    using 2(1) sint_lt [of i] by (simp add: sint_word_ariths signed_take_bit_int_eq_self)
  then show ?case
    using 2(1) by simp
qed

text \<open>\<^verbatim>\<open>for (int i = n - 1; i > 0; i--) { std::swap(arr[0], arr[i]); heapify(arr, i, 0); }\<close>\<close>

function heapSort_extract ::
  "LotteryTicket list \<Rightarrow> 32 word \<Rightarrow> (error + LotteryTicket list) option" where
  "heapSort_extract arr i =
     (if sint i > 0 then
        (case swap arr 0 (sint i) of Inl e \<Rightarrow> Some (Inl e) | Inr arr1 \<Rightarrow>
          (case heapify arr1 i 0 of None \<Rightarrow> None | Some (Inl e) \<Rightarrow> Some (Inl e)
           | Some (Inr arr2) \<Rightarrow> heapSort_extract arr2 (i - 1)))
      else Some (Inr arr))"
  by pat_completeness auto
termination
proof (relation "measure (\<lambda>(arr, i). nat (sint i))", goal_cases)
  case 1
  show ?case by simp
next
  case (2 arr i arr1 r arr2)
  have "sint (i - 1) = sint i - 1"
    using 2(1) sint_lt [of i] by (simp add: sint_word_ariths signed_take_bit_int_eq_self)
  then show ?case
    using 2(1) by simp
qed

text \<open>\<^verbatim>\<open>int n = arr.size();\<close> and the two loops. \<^verbatim>\<open>n / 2\<close> truncates towards zero (\<open>sdiv\<close>
  on the value of \<open>n\<close>; the quotient fits the 32 bits).\<close>

definition heapSort :: "LotteryTicket list \<Rightarrow> (error + LotteryTicket list) option" where
  "heapSort arr =
     (let n = of_nat (length arr) :: 32 word in
      case heapSort_build arr n (of_int (sint n sdiv 2) - 1) of
        None \<Rightarrow> None | Some (Inl e) \<Rightarrow> Some (Inl e)
      | Some (Inr arr') \<Rightarrow> heapSort_extract arr' (n - 1))"

section \<open>The reference sort\<close>

text \<open>
  Modelled from the spec: \<^verbatim>\<open>std::sort\<close> is the C++ standard library's and not code of
  this repository. The spec calls it the reference sort, "any correct general-purpose
  comparison sort"; it is taken here as an insertion sort by \<^verbatim>\<open>operator<\<close>.
\<close>

fun std_sort_insert :: "LotteryTicket \<Rightarrow> LotteryTicket list \<Rightarrow> LotteryTicket list" where
  "std_sort_insert x [] = [x]"
| "std_sort_insert x (y # ys) =
     (if ticket_less x y then x # y # ys else y # std_sort_insert x ys)"

fun std_sort :: "LotteryTicket list \<Rightarrow> LotteryTicket list" where
  "std_sort [] = []"
| "std_sort (x # xs) = std_sort_insert x (std_sort xs)"

section \<open>Streams and text conversion of the standard library\<close>

text \<open>
  The file functions use \<^verbatim>\<open>std::getline\<close>, \<^verbatim>\<open>std::stoll\<close>, \<^verbatim>\<open>std::stoi\<close>,
  \<^verbatim>\<open>std::to_string\<close> and the stream inserters of the C++ standard library, which are
  not code of this repository. They are written here as the C++ standard describes them,
  as far as the program uses them.

  An input stream is the text not yet read and the two state bits the program can
  observe. A stream starts with both bits clear, also on empty text.
\<close>

record istream =
  buffer :: string
  eofbit :: bool
  failbit :: bool

definition istream_on :: "string \<Rightarrow> istream" where
  "istream_on text = \<lparr>buffer = text, eofbit = False, failbit = False\<rparr>"

text \<open>
  \<^verbatim>\<open>std::getline(is, str, delim)\<close>. On a stream that is not good (a bit is set) the call
  sets \<open>failbit\<close> and leaves \<open>str\<close> as it was. Otherwise \<open>str\<close> is erased and filled with
  the characters before the first \<open>delim\<close>, which is read and dropped; when the text ends
  first, \<open>eofbit\<close> is set, and \<open>failbit\<close> too if nothing was read at all.
\<close>

definition getline :: "istream \<Rightarrow> string \<Rightarrow> char \<Rightarrow> istream \<times> string" where
  "getline is str delim =
     (if eofbit is \<or> failbit is then (is\<lparr>failbit := True\<rparr>, str)
      else (case dropWhile (\<lambda>c. c \<noteq> delim) (buffer is) of
              [] \<Rightarrow> (is\<lparr>buffer := [], eofbit := True, failbit := (buffer is = [])\<rparr>, buffer is)
            | d # rest \<Rightarrow> (is\<lparr>buffer := rest\<rparr>, takeWhile (\<lambda>c. c \<noteq> delim) (buffer is))))"

text \<open>
  \<^verbatim>\<open>strtoll(s, &end, 10)\<close> as \<^verbatim>\<open>std::stoll\<close> and \<^verbatim>\<open>std::stoi\<close> call it: white space is
  skipped, then an optional sign and the longest run of decimal digits are read;
  whatever follows is ignored. \<open>None\<close> is "no conversion" (no digit where one is
  needed). The value is not yet cut to a width.
\<close>

definition isspace :: "char \<Rightarrow> bool" where
  "isspace c = (c \<in> {CHR '' '', CHR 0x09, CHR 0x0A, CHR 0x0B, CHR 0x0C, CHR 0x0D})"

definition isdigit :: "char \<Rightarrow> bool" where
  "isdigit c = (CHR ''0'' \<le> c \<and> c \<le> CHR ''9'')"

definition digit_value :: "char \<Rightarrow> int" where
  "digit_value c = int (of_char c) - 48"

definition strtoll_decimal :: "string \<Rightarrow> int option" where
  "strtoll_decimal s =
     (let s1 = dropWhile isspace s;
          negative = (s1 \<noteq> [] \<and> hd s1 = CHR ''-'');
          s2 = (if s1 \<noteq> [] \<and> (hd s1 = CHR ''-'' \<or> hd s1 = CHR ''+'') then tl s1 else s1);
          digits = takeWhile isdigit s2;
          magnitude = foldl (\<lambda>acc c. 10 * acc + digit_value c) 0 digits
      in if digits = [] then None else Some (if negative then - magnitude else magnitude))"

text \<open>\<^verbatim>\<open>std::stoll\<close>: \<^verbatim>\<open>std::invalid_argument\<close> when nothing converts,
  \<^verbatim>\<open>std::out_of_range\<close> when the value does not fit \<^verbatim>\<open>long long\<close>.\<close>

definition stoll :: "string \<Rightarrow> error + 64 word" where
  "stoll str =
     (case strtoll_decimal str of
        None \<Rightarrow> Inl InvalidArgument
      | Some v \<Rightarrow> if - (2 ^ 63) \<le> v \<and> v < 2 ^ 63 then Inr (word_of_int v) else Inl OutOfRange)"

text \<open>\<^verbatim>\<open>std::stoi\<close>: the same with the range of \<^verbatim>\<open>int\<close>.\<close>

definition stoi :: "string \<Rightarrow> error + 32 word" where
  "stoi str =
     (case strtoll_decimal str of
        None \<Rightarrow> Inl InvalidArgument
      | Some v \<Rightarrow> if - (2 ^ 31) \<le> v \<and> v < 2 ^ 31 then Inr (word_of_int v) else Inl OutOfRange)"

text \<open>Decimal text of an integer, as \<^verbatim>\<open>std::to_string\<close> and \<^verbatim>\<open>operator<<\<close> write it.\<close>

definition digit_char :: "nat \<Rightarrow> char" where
  "digit_char d = char_of (48 + d)"

fun show_nat :: "nat \<Rightarrow> string" where
  "show_nat n = (if n < 10 then [digit_char n] else show_nat (n div 10) @ [digit_char (n mod 10)])"

declare show_nat.simps [simp del]

definition show_int :: "int \<Rightarrow> string" where
  "show_int v = (if v < 0 then CHR ''-'' # show_nat (nat (- v)) else show_nat (nat v))"

section \<open>Reading and writing tickets\<close>

text \<open>\<^verbatim>\<open>std::ostream& operator<<(std::ostream& os, const LotteryTicket& ticket)\<close>: the text
  it appends to the stream.\<close>

definition ticket_text :: "LotteryTicket \<Rightarrow> string" where
  "ticket_text ticket =
     show_int (sint (ticketNumber ticket)) @ '','' @ show_int (sint (cost ticket)) @ '',''
       @ lotteryDate ticket @ '','' @ show_int (sint (winAmount ticket))"

text \<open>
  The files the program can see: the text of each file an \<^verbatim>\<open>std::ifstream\<close> can open,
  and the names an \<^verbatim>\<open>std::ofstream\<close> can open. Writing a file makes it readable.
\<close>

record filesystem =
  contents :: "string \<Rightarrow> string option"
  writable :: "string \<Rightarrow> bool"

text \<open>
  The body of the loop in \<^verbatim>\<open>readTicketsFromFile\<close>, on one line: four \<^verbatim>\<open>getline\<close> calls
  on \<^verbatim>\<open>std::stringstream ss(line)\<close> into the same \<^verbatim>\<open>item\<close>, whose results are not
  tested, and three conversions, each of which may throw.
\<close>

definition parse_line :: "string \<Rightarrow> error + LotteryTicket" where
  "parse_line line =
     (let ss = istream_on line; item = [];
          (ss, item) = getline ss item CHR '','' in
      case stoll item of Inl e \<Rightarrow> Inl e | Inr num \<Rightarrow>
       (let (ss, item) = getline ss item CHR '','' in
        case stoi item of Inl e \<Rightarrow> Inl e | Inr cost' \<Rightarrow>
         (let (ss, item) = getline ss item CHR '','';
              date = item;
              (ss, item) = getline ss item CHR '','' in
          case stoi item of Inl e \<Rightarrow> Inl e | Inr win \<Rightarrow>
            Inr \<lparr>ticketNumber = num, cost = cost', lotteryDate = date, winAmount = win\<rparr>)))"

text \<open>\<^verbatim>\<open>while (std::getline(file, line)) { ...; tickets.emplace_back(num, cost, date, win); }\<close>\<close>

function read_lines :: "istream \<Rightarrow> string \<Rightarrow> LotteryTicket list \<Rightarrow> error + LotteryTicket list" where
  "read_lines file line tickets =
     (case getline file line (CHR 0x0A) of (file', line') \<Rightarrow>
        if failbit file' then Inr tickets
        else (case parse_line line' of Inl e \<Rightarrow> Inl e
              | Inr ticket \<Rightarrow> read_lines file' line' (tickets @ [ticket])))"
  by pat_completeness auto
termination
proof (relation "measure (\<lambda>(file, line, tickets).
    length (buffer file) + (if eofbit file \<or> failbit file then 0 else 1))", goal_cases)
  case 1
  show ?case by simp
next
  case 2
  have "length rest < length xs" if "dropWhile P xs = d # rest" for P and xs rest :: string and d
    using length_dropWhile_le [of P xs] that by simp
  then show ?case
    using 2 by (auto simp: getline_def split: if_splits list.splits)
qed

declare read_lines.simps [simp del]

definition readTicketsFromFile :: "filesystem \<Rightarrow> string \<Rightarrow> error + LotteryTicket list" where
  "readTicketsFromFile fs filename =
     (case contents fs filename of
        None \<Rightarrow> Inl (RuntimeError (''Could not open file: '' @ filename))
      | Some text \<Rightarrow> read_lines (istream_on text) [] [])"

text \<open>\<^verbatim>\<open>for (const auto& ticket : tickets) file << ticket << "\n";\<close> as the text written.\<close>

definition tickets_text :: "string \<Rightarrow> LotteryTicket list \<Rightarrow> string" where
  "tickets_text eol tickets = foldl (\<lambda>out ticket. out @ ticket_text ticket @ eol) [] tickets"


section \<open>The benchmark harness\<close>

text \<open>
  A run of the harness carries the files and, as a ghost log, the calls of the four
  \<^verbatim>\<open>measure...\<close> functions made so far: which algorithm, and the vector it received (each
  takes its vector by value, a copy of its own).

  The clock is outside the model. \<open>elapsed k\<close> stands for the milliseconds the
  \<open>k\<close>-th measurement of the run reports, the value of
  \<^verbatim>\<open>duration_cast<milliseconds>(end - start).count()\<close>, a \<^verbatim>\<open>long long\<close>.
\<close>

datatype algorithm = StdSort | BubbleSort | SelectionSort | HeapSort

record run =
  files :: filesystem
  calls :: "(algorithm \<times> LotteryTicket list) list"

text \<open>\<^verbatim>\<open>std::ofstream out; out.open(filename); for (...) out << tickets[i] << std::endl;
  out.close();\<close> The open is not tested: on a name that cannot be opened nothing is
  written.\<close>

definition save_sorted :: "filesystem \<Rightarrow> string \<Rightarrow> LotteryTicket list \<Rightarrow> filesystem" where
  "save_sorted fs filename tickets =
     (if writable fs filename
      then fs\<lparr>contents := (contents fs)(filename \<mapsto> tickets_text [CHR 0x0A] tickets)\<rparr>
      else fs)"

definition measureStdSort ::
  "(nat \<Rightarrow> 64 word) \<Rightarrow> run \<Rightarrow> LotteryTicket list \<Rightarrow> (error + 64 word \<times> run) option" where
  "measureStdSort elapsed st tickets =
     (let sorted_tickets = std_sort tickets
      in Some (Inr (elapsed (length (calls st)), st\<lparr>calls := calls st @ [(StdSort, tickets)]\<rparr>)))"

definition measureSelectionSort ::
  "(nat \<Rightarrow> 64 word) \<Rightarrow> run \<Rightarrow> LotteryTicket list \<Rightarrow> (error + 64 word \<times> run) option" where
  "measureSelectionSort elapsed st tickets =
     (case selectionSort tickets of Inl e \<Rightarrow> Some (Inl e)
      | Inr sorted_tickets \<Rightarrow>
          (let filename = ''lottery_selection_sort_'' @ show_nat (length sorted_tickets)
           in Some (Inr (elapsed (length (calls st)),
                st\<lparr>files := save_sorted (files st) filename sorted_tickets,
                   calls := calls st @ [(SelectionSort, tickets)]\<rparr>))))"

definition measureBubbleSort ::
  "(nat \<Rightarrow> 64 word) \<Rightarrow> run \<Rightarrow> LotteryTicket list \<Rightarrow> (error + 64 word \<times> run) option" where
  "measureBubbleSort elapsed st tickets =
     (case bubbleSort tickets of Inl e \<Rightarrow> Some (Inl e)
      | Inr sorted_tickets \<Rightarrow>
          (let filename = ''lottery_bubble_sort_'' @ show_nat (length sorted_tickets)
           in Some (Inr (elapsed (length (calls st)),
                st\<lparr>files := save_sorted (files st) filename sorted_tickets,
                   calls := calls st @ [(BubbleSort, tickets)]\<rparr>))))"

definition measureHeapSort ::
  "(nat \<Rightarrow> 64 word) \<Rightarrow> run \<Rightarrow> LotteryTicket list \<Rightarrow> (error + 64 word \<times> run) option" where
  "measureHeapSort elapsed st tickets =
     (case heapSort tickets of None \<Rightarrow> None | Some (Inl e) \<Rightarrow> Some (Inl e)
      | Some (Inr sorted_tickets) \<Rightarrow>
          (let filename = ''lottery_heap_sort_'' @ show_nat (length sorted_tickets)
           in Some (Inr (elapsed (length (calls st)),
                st\<lparr>files := save_sorted (files st) filename sorted_tickets,
                   calls := calls st @ [(HeapSort, tickets)]\<rparr>))))"

definition arr_size :: "32 word list" where
  "arr_size = [100, 500, 1000, 2500, 5000, 7500, 10000, 12500, 15000, 20000, 30000, 40000,
               50000, 60000, 80000, 100000]"

text \<open>\<^verbatim>\<open>for (auto el : arr_size) filenames.push_back("lottery_" + std::to_string(el) + ".txt");\<close>\<close>

definition filenames :: "string list" where
  "filenames = map (\<lambda>el. ''lottery_'' @ show_int (sint el) @ ''.txt'') arr_size"

text \<open>\<^verbatim>\<open>for (auto name : filenames) arrs_tickets.push_back(readTicketsFromFile(name));\<close>
  An exception of the loader ends the program.\<close>

fun load_files ::
  "filesystem \<Rightarrow> string list \<Rightarrow> LotteryTicket list list \<Rightarrow> error + LotteryTicket list list" where
  "load_files fs [] arrs_tickets = Inr arrs_tickets"
| "load_files fs (name # names) arrs_tickets =
     (case readTicketsFromFile fs name of Inl e \<Rightarrow> Inl e
      | Inr tickets \<Rightarrow> load_files fs names (arrs_tickets @ [tickets]))"

text \<open>\<^verbatim>\<open>for (auto arr : arrs_tickets) std_sort_times.push_back(measureStdSort(arr));\<close>
  and the three loops like it, for any of the four \<^verbatim>\<open>measure...\<close> functions.\<close>

fun measure_loop ::
  "(run \<Rightarrow> LotteryTicket list \<Rightarrow> (error + 64 word \<times> run) option) \<Rightarrow> run \<Rightarrow>
   LotteryTicket list list \<Rightarrow> 64 word list \<Rightarrow> (error + 64 word list \<times> run) option" where
  "measure_loop measure_fn st [] durations = Some (Inr (durations, st))"
| "measure_loop measure_fn st (arr # arrs) durations =
     (case measure_fn st arr of None \<Rightarrow> None | Some (Inl e) \<Rightarrow> Some (Inl e)
      | Some (Inr (t, st')) \<Rightarrow> measure_loop measure_fn st' arrs (durations @ [t]))"

text \<open>\<^verbatim>\<open>for (int i = 0; i < std_sort_times.size(); i++) out << arr_size[i] << '\t' <<
  std_sort_times[i] << '\t' << std_bubble_times[i] << '\t' << std_selection_times[i] << '\t'
  << std_heap_times[i] << std::endl;\<close> as the text written. The comparison with the unsigned
  size converts \<open>i\<close> as an index is converted: a negative \<open>i\<close> is above every size. The
  loop ends also where \<^verbatim>\<open>i++\<close> wraps around, to a negative \<open>i\<close>.\<close>

function table_loop ::
  "32 word list \<Rightarrow> 64 word list \<Rightarrow> 64 word list \<Rightarrow> 64 word list \<Rightarrow> 64 word list \<Rightarrow>
   32 word \<Rightarrow> string \<Rightarrow> error + string" where
  "table_loop sizes std_sort_times std_bubble_times std_selection_times std_heap_times i out =
     (if 0 \<le> sint i \<and> sint i < int (length std_sort_times) then
        (case at sizes (sint i) of Inl e \<Rightarrow> Inl e | Inr size_i \<Rightarrow>
          (case at std_sort_times (sint i) of Inl e \<Rightarrow> Inl e | Inr t_std \<Rightarrow>
            (case at std_bubble_times (sint i) of Inl e \<Rightarrow> Inl e | Inr t_bubble \<Rightarrow>
              (case at std_selection_times (sint i) of Inl e \<Rightarrow> Inl e | Inr t_selection \<Rightarrow>
                (case at std_heap_times (sint i) of Inl e \<Rightarrow> Inl e | Inr t_heap \<Rightarrow>
                   table_loop sizes std_sort_times std_bubble_times std_selection_times
                     std_heap_times (i + 1)
                     (out @ show_int (sint size_i) @ [CHR 0x09] @ show_int (sint t_std)
                        @ [CHR 0x09] @ show_int (sint t_bubble)
                        @ [CHR 0x09] @ show_int (sint t_selection)
                        @ [CHR 0x09] @ show_int (sint t_heap) @ [CHR 0x0A]))))))
      else Inr out)"
  by pat_completeness auto
termination
proof (relation "measure (\<lambda>(sizes, t1, t2, t3, t4, i, out).
    if 0 \<le> sint i then nat (2 ^ 31 - sint i) else 0)", goal_cases)
  case 1
  show ?case by simp
next
  case (2 sizes t1 t2 t3 t4 i out size_i t_std t_bubble t_selection t_heap)
  have pos: "0 < nat (2 ^ 31 - sint i)"
    using sint_lt [of i] by simp
  show ?case
  proof (cases "sint i = 2 ^ 31 - 1")
    case True
    then have "sint i = sint (2147483647 :: 32 word)"
      by simp
    then have "i = 2147483647"
      by (rule signed_word_eqI)
    then have "\<not> 0 \<le> sint (i + 1)"
      by simp
    then show ?thesis
      using 2(1) pos by simp
  next
    case False
    then have "sint i < 2 ^ (LENGTH(32) - 1) - 1"
      using sint_lt [of i] by simp
    then have "sint (i + 1) = sint i + 1"
      using sint_ge [of i] by (simp add: sint_word_ariths signed_take_bit_int_eq_self)
    then show ?thesis
      using 2(1) pos by simp
  qed
qed

text \<open>\<^verbatim>\<open>int main()\<close>: load every dataset, run the four measuring loops one after the other,
  write \<^verbatim>\<open>time_sorts.txt\<close> (its open is not tested either).\<close>

definition main :: "(nat \<Rightarrow> 64 word) \<Rightarrow> filesystem \<Rightarrow> (error + run) option" where
  "main elapsed fs =
     (case load_files fs filenames [] of Inl e \<Rightarrow> Some (Inl e) | Inr arrs_tickets \<Rightarrow>
       (case measure_loop (measureStdSort elapsed) \<lparr>files = fs, calls = []\<rparr> arrs_tickets [] of
          None \<Rightarrow> None | Some (Inl e) \<Rightarrow> Some (Inl e)
        | Some (Inr (std_sort_times, st1)) \<Rightarrow>
       (case measure_loop (measureBubbleSort elapsed) st1 arrs_tickets [] of
          None \<Rightarrow> None | Some (Inl e) \<Rightarrow> Some (Inl e)
        | Some (Inr (std_bubble_times, st2)) \<Rightarrow>
       (case measure_loop (measureSelectionSort elapsed) st2 arrs_tickets [] of
          None \<Rightarrow> None | Some (Inl e) \<Rightarrow> Some (Inl e)
        | Some (Inr (std_selection_times, st3)) \<Rightarrow>
       (case measure_loop (measureHeapSort elapsed) st3 arrs_tickets [] of
          None \<Rightarrow> None | Some (Inl e) \<Rightarrow> Some (Inl e)
        | Some (Inr (std_heap_times, st4)) \<Rightarrow>
       (case table_loop arr_size std_sort_times std_bubble_times std_selection_times
               std_heap_times 0 [] of
          Inl e \<Rightarrow> Some (Inl e)
        | Inr text \<Rightarrow>
            Some (Inr (st4\<lparr>files :=
              (if writable (files st4) ''time_sorts.txt''
               then (files st4)\<lparr>contents := (contents (files st4))(''time_sorts.txt'' \<mapsto> text)\<rparr>
               else files st4)\<rparr>))))))))"

section \<open>Bubble sort as the spec describes it\<close>

text \<open>
  The spec's words for bubble sort, written as a function of their own to compare the
  loops of \<^verbatim>\<open>bubbleSort\<close> with: ``repeated adjacent-pair comparisons and swaps across the
  full remaining range on each pass, N - 1 passes, each pass comparing adjacent elements
  and swapping when the left element is strictly greater than the right''. The state is
  the vector together with the number of swaps made so far.
\<close>

text \<open>One comparison, of the adjacent pair at \<open>j\<close> and \<open>j + 1\<close>: the pair is swapped exactly
  when the left element is strictly greater than the right.\<close>

definition spec_compare_adjacent ::
  "nat \<Rightarrow> LotteryTicket list \<times> nat \<Rightarrow> LotteryTicket list \<times> nat" where
  "spec_compare_adjacent j = (\<lambda>(arr, swapped).
     if ticket_greater (arr ! j) (arr ! Suc j)
     then (arr[j := arr ! Suc j, Suc j := arr ! j], Suc swapped)
     else (arr, swapped))"

text \<open>One pass over a remaining range of \<open>m + 1\<close> elements: its \<open>m\<close> adjacent pairs from
  left to right.\<close>

definition spec_pass :: "nat \<Rightarrow> LotteryTicket list \<times> nat \<Rightarrow> LotteryTicket list \<times> nat" where
  "spec_pass m = fold spec_compare_adjacent [0..<m]"

text \<open>\<open>N - 1\<close> passes, none left out; the remaining range loses its last element with each
  pass.\<close>

definition spec_bubble_sort :: "LotteryTicket list \<Rightarrow> LotteryTicket list \<times> nat" where
  "spec_bubble_sort arr =
     fold (\<lambda>p. spec_pass (length arr - 1 - p)) [0..<length arr - 1] (arr, 0)"

section \<open>Invariants used in the proofs\<close>

text \<open>Within the first \<open>n\<close> elements, the element at \<open>j\<close> is not smaller than its two
  children at \<open>2j + 1\<close> and \<open>2j + 2\<close>.\<close>

definition heap_node :: "LotteryTicket list \<Rightarrow> nat \<Rightarrow> nat \<Rightarrow> bool" where
  "heap_node arr n j =
     ((2 * j + 1 < n \<longrightarrow> ticket_less_eq (arr ! (2 * j + 1)) (arr ! j)) \<and>
      (2 * j + 2 < n \<longrightarrow> ticket_less_eq (arr ! (2 * j + 2)) (arr ! j)))"

text \<open>Two vectors with the same sequence of sort keys: they differ in costs at most.\<close>

definition same_keys :: "LotteryTicket list \<Rightarrow> LotteryTicket list \<Rightarrow> bool" where
  "same_keys xs ys = (map ticket_key xs = map ticket_key ys)"

text \<open>The lines of a text as the loop of \<^verbatim>\<open>readTicketsFromFile\<close> meets them: the
  pieces between line feeds, without a last empty piece after a final line feed.\<close>

function lines_of :: "string \<Rightarrow> string list" where
  "lines_of input =
     (if input = [] then []
      else takeWhile (\<lambda>c. c \<noteq> CHR 0x0A) input
             # lines_of (drop 1 (dropWhile (\<lambda>c. c \<noteq> CHR 0x0A) input)))"
  by pat_completeness auto
termination
proof (relation "measure length", goal_cases)
  case 1
  show ?case by simp
next
  case (2 input)
  have "length (dropWhile (\<lambda>c. c \<noteq> CHR 0x0A) input) \<le> length input"
    by (rule length_dropWhile_le)
  then show ?case
    using 2 by (cases input) auto
qed

declare lines_of.simps [simp del]

text \<open>One row of \<^verbatim>\<open>time_sorts.txt\<close>: the size and the four durations at index \<open>i\<close>.\<close>

definition table_row ::
  "32 word list \<Rightarrow> 64 word list \<Rightarrow> 64 word list \<Rightarrow> 64 word list \<Rightarrow> 64 word list \<Rightarrow> nat \<Rightarrow> string" where
  "table_row sizes t1 t2 t3 t4 i =
     show_int (sint (sizes ! i)) @ [CHR 0x09] @ show_int (sint (t1 ! i))
       @ [CHR 0x09] @ show_int (sint (t2 ! i)) @ [CHR 0x09] @ show_int (sint (t3 ! i))
       @ [CHR 0x09] @ show_int (sint (t4 ! i)) @ [CHR 0x0A]"

section \<open>Properties of the ordering\<close>

lemma ticket_less_irrefl: "\<not> ticket_less a a"
  by (simp add: ticket_less_def)

lemma ticket_less_asym: "ticket_less a b \<Longrightarrow> \<not> ticket_less b a"
  by (auto simp: ticket_less_def split: if_splits)

lemma ticket_less_trans: "ticket_less a b \<Longrightarrow> ticket_less b c \<Longrightarrow> ticket_less a c"
  by (auto simp: ticket_less_def split: if_splits)

lemma ticket_incomparable_key:
  "\<not> ticket_less a b \<Longrightarrow> \<not> ticket_less b a \<Longrightarrow> ticket_key a = ticket_key b"
  by (auto simp: ticket_less_def ticket_key_def split: if_splits dest: signed_word_eqI)

lemma ticket_less_key_cong:
  "ticket_key a = ticket_key a' \<Longrightarrow> ticket_key b = ticket_key b' \<Longrightarrow>
   ticket_less a b = ticket_less a' b'"
  by (simp add: ticket_less_def ticket_key_def)

lemma ticket_less_eq_trans:
  "ticket_less_eq a b \<Longrightarrow> ticket_less_eq b c \<Longrightarrow> ticket_less_eq a c"
  unfolding ticket_less_eq_def ticket_greater_def
  by (auto simp: ticket_less_def split: if_splits dest: signed_word_eqI)

text \<open>
  C3. \<^verbatim>\<open>operator<\<close> is a strict order that decides every pair of distinct keys: it is
  irreflexive; \<open>a < b\<close> and \<open>b < a\<close> never hold together; \<open>a < b\<close> is \<open>b > a\<close> and
  \<open>a <= b\<close> is \<open>b >= a\<close>, so the two directions of a comparison agree; it is
  transitive; and two tickets with distinct ticket numbers are always ordered, one
  strictly before the other.
\<close>

theorem ticket_less_strict_total_order:
  "\<not> ticket_less a a
   \<and> \<not> (ticket_less a b \<and> ticket_less b a)
   \<and> ticket_less a b = ticket_greater b a
   \<and> ticket_less_eq a b = ticket_greater_eq b a
   \<and> (ticket_less a b \<longrightarrow> ticket_less b c \<longrightarrow> ticket_less a c)
   \<and> (ticketNumber a \<noteq> ticketNumber b \<longrightarrow> ticket_less a b \<noteq> ticket_less b a)"
proof -
  have total: "ticket_less a b \<noteq> ticket_less b a" if "ticketNumber a \<noteq> ticketNumber b"
  proof -
    have "ticket_key a \<noteq> ticket_key b"
      using that by (simp add: ticket_key_def)
    then have "ticket_less a b \<or> ticket_less b a"
      using ticket_incomparable_key by blast
    then show ?thesis
      using ticket_less_asym by blast
  qed
  have inv: "ticket_less a b = ticket_greater b a" "ticket_less_eq a b = ticket_greater_eq b a"
    by (simp_all add: ticket_greater_def ticket_less_eq_def ticket_greater_eq_def)
  show ?thesis
    using ticket_less_irrefl [of a] ticket_less_asym [of a b] ticket_less_trans [of a b c]
      total inv
    by blast
qed

theorem ticket_less_strict_total_order_witness:
  "ticket_less \<lparr>ticketNumber = 1, cost = 10, lotteryDate = ''2024-04-01'', winAmount = 0\<rparr>
               \<lparr>ticketNumber = 2, cost = 20, lotteryDate = ''2024-05-01'', winAmount = 100\<rparr>
   \<and> ticket_less \<lparr>ticketNumber = 2, cost = 20, lotteryDate = ''2024-05-01'', winAmount = 100\<rparr>
                 \<lparr>ticketNumber = 3, cost = 5, lotteryDate = ''2024-05-01'', winAmount = 50\<rparr>
   \<and> ticket_less \<lparr>ticketNumber = 1, cost = 10, lotteryDate = ''2024-04-01'', winAmount = 0\<rparr>
                 \<lparr>ticketNumber = 3, cost = 5, lotteryDate = ''2024-05-01'', winAmount = 50\<rparr>
   \<and> (1 :: 64 word) \<noteq> 2
   \<and> \<not> ticket_less \<lparr>ticketNumber = 2, cost = 20, lotteryDate = ''2024-05-01'', winAmount = 100\<rparr>
                   \<lparr>ticketNumber = 1, cost = 10, lotteryDate = ''2024-04-01'', winAmount = 0\<rparr>"
proof -
  have ab: "ticket_less \<lparr>ticketNumber = 1, cost = 10, lotteryDate = ''2024-04-01'', winAmount = 0\<rparr>
               \<lparr>ticketNumber = 2, cost = 20, lotteryDate = ''2024-05-01'', winAmount = 100\<rparr>"
    by (simp add: ticket_less_def)
  have bc: "ticket_less \<lparr>ticketNumber = 2, cost = 20, lotteryDate = ''2024-05-01'', winAmount = 100\<rparr>
                 \<lparr>ticketNumber = 3, cost = 5, lotteryDate = ''2024-05-01'', winAmount = 50\<rparr>"
    by (simp add: ticket_less_def)
  have ne: "(1 :: 64 word) \<noteq> 2"
    by simp
  show ?thesis
    using ab bc ne
      ticket_less_strict_total_order
        [of "\<lparr>ticketNumber = 1, cost = 10, lotteryDate = ''2024-04-01'', winAmount = 0\<rparr>"
            "\<lparr>ticketNumber = 2, cost = 20, lotteryDate = ''2024-05-01'', winAmount = 100\<rparr>"
            "\<lparr>ticketNumber = 3, cost = 5, lotteryDate = ''2024-05-01'', winAmount = 50\<rparr>"]
    by simp
qed

section \<open>Vector access within range\<close>

lemma nat_int_add1 [simp]: "nat (int J + 1) = Suc J"
  by linarith

lemma at_in_range: "0 \<le> i \<Longrightarrow> i < int (length arr) \<Longrightarrow> at arr i = Inr (arr ! nat i)"
  by (simp add: at_def)

lemma swap_in_range:
  "0 \<le> i \<Longrightarrow> i < int (length arr) \<Longrightarrow> 0 \<le> j \<Longrightarrow> j < int (length arr) \<Longrightarrow>
   swap arr i j = Inr (arr[nat i := arr ! nat j, nat j := arr ! nat i])"
  by (simp add: swap_def)

lemma ticket_greater_imp_less_eq: "ticket_greater a b \<Longrightarrow> ticket_less_eq b a"
  using ticket_less_asym by (auto simp: ticket_greater_def ticket_less_eq_def)

lemma ticket_greater_key: "ticket_greater a b \<Longrightarrow> ticket_key a \<noteq> ticket_key b"
  using ticket_less_irrefl ticket_less_key_cong by (metis ticket_greater_def)

lemma swap_adjacent_conv:
  assumes "Suc J < length xs"
  shows "xs[J := xs ! Suc J, Suc J := xs ! J] = take J xs @ [xs ! Suc J, xs ! J] @ drop (J + 2) xs"
    and "xs = take J xs @ [xs ! J, xs ! Suc J] @ drop (J + 2) xs"
proof -
  show "xs = take J xs @ [xs ! J, xs ! Suc J] @ drop (J + 2) xs"
    using assms by (simp add: Cons_nth_drop_Suc)
  have "(take J xs @ [xs ! J, xs ! Suc J] @ drop (J + 2) xs)[J := xs ! Suc J, Suc J := xs ! J]
      = take J xs @ [xs ! Suc J, xs ! J] @ drop (J + 2) xs"
    using assms by (simp add: list_update_append)
  then show "xs[J := xs ! Suc J, Suc J := xs ! J] = take J xs @ [xs ! Suc J, xs ! J] @ drop (J + 2) xs"
    using \<open>xs = take J xs @ [xs ! J, xs ! Suc J] @ drop (J + 2) xs\<close> by simp
qed

lemma filter_swap_adjacent:
  assumes "Suc J < length xs" "\<not> (P (xs ! J) \<and> P (xs ! Suc J))"
  shows "filter P (xs[J := xs ! Suc J, Suc J := xs ! J]) = filter P xs"
proof -
  have "filter P (take J xs @ [xs ! Suc J, xs ! J] @ drop (J + 2) xs)
      = filter P (take J xs @ [xs ! J, xs ! Suc J] @ drop (J + 2) xs)"
    using assms(2) by auto
  then show ?thesis
    using swap_adjacent_conv [OF assms(1)] by metis
qed

section \<open>Index arithmetic without overflow\<close>

lemma nat_add1_int [simp]: "nat (1 + int J) = Suc J"
  by linarith

lemma sint_add1:
  fixes j n :: "32 word"
  assumes "sint j < sint n"
  shows "sint (j + 1) = sint j + 1"
proof -
  have "sint j < 2 ^ (LENGTH(32) - 1) - 1"
    using assms sint_lt [of n] by simp
  then show ?thesis
    using sint_ge [of j] by (simp add: sint_word_ariths signed_take_bit_int_eq_self)
qed

lemma sint_sub1:
  fixes i m :: "32 word"
  assumes "sint m < sint i"
  shows "sint (i - 1) = sint i - 1"
proof -
  have "- (2 ^ (LENGTH(32) - 1)) < sint i"
    using assms sint_ge [of m] by simp
  then show ?thesis
    using sint_lt [of i] by (simp add: sint_word_ariths signed_take_bit_int_eq_self)
qed

lemma sint_sub_nonneg:
  fixes a b :: "32 word"
  assumes "0 \<le> sint a" "0 \<le> sint b"
  shows "sint (a - b) = sint a - sint b"
  using assms sint_lt [of a] sint_lt [of b]
  by (simp add: sint_word_ariths signed_take_bit_int_eq_self)

lemma sint_of_nat_32:
  assumes "k < 2 ^ 31"
  shows "sint (of_nat k :: 32 word) = int k"
proof -
  have "int k < 2 ^ 31"
    using assms by (metis of_nat_less_iff of_nat_numeral of_nat_power)
  then show ?thesis
    by (simp add: signed_of_nat signed_take_bit_int_eq_self)
qed

lemma sint_of_nat_le: "sint (of_nat L :: 32 word) \<le> int L"
proof -
  have "- (2 ^ 31) \<le> int L"
    by (rule order_trans [of _ 0]) simp_all
  then have "signed_take_bit 31 (int L) \<le> int L"
    by (simp only: signed_take_bit_int_less_eq_self_iff)
  then show ?thesis
    by (simp add: signed_of_nat)
qed

lemma sint_of_nat_pred: "sint (of_nat L - 1 :: 32 word) < int L"
proof (cases L)
  case 0
  then show ?thesis by simp
next
  case (Suc K)
  then have "of_nat L - 1 = (of_nat K :: 32 word)"
    by simp
  then show ?thesis
    using sint_of_nat_le [of K] Suc by simp
qed

lemma sint_double:
  fixes i :: "32 word"
  assumes "0 \<le> sint i" "sint i < 2 ^ 30 - 1"
  shows "sint (2 * i + 1) = 2 * sint i + 1" "sint (2 * i + 2) = 2 * sint i + 2"
  using assms
  by (simp_all add: sint_word_ariths signed_take_bit_int_eq_self)

section \<open>Bubble sort sorts, and keeps equal keys in order\<close>

declare bubbleSort_inner.simps [simp del] bubbleSort_outer.simps [simp del]

lemma bubble_step:
  assumes len: "Suc J < length arr"
    and inv: "\<forall>k<J. ticket_less_eq (arr ! k) (arr ! J)"
    and arr': "arr' = (if ticket_greater (arr ! J) (arr ! Suc J)
                       then arr[J := arr ! Suc J, Suc J := arr ! J] else arr)"
  shows "length arr' = length arr"
    and "mset arr' = mset arr"
    and "Suc J < m \<Longrightarrow> drop m arr' = drop m arr"
    and "filter (\<lambda>t. ticket_key t = key) arr' = filter (\<lambda>t. ticket_key t = key) arr"
    and "\<forall>k<Suc J. ticket_less_eq (arr' ! k) (arr' ! Suc J)"
proof -
  show "length arr' = length arr"
    by (simp add: arr')
  show "mset arr' = mset arr"
    using len mset_swap [of "Suc J" arr J] by (simp add: arr')
  show "drop m arr' = drop m arr" if "Suc J < m"
    using that by (simp add: arr')
  show "filter (\<lambda>t. ticket_key t = key) arr' = filter (\<lambda>t. ticket_key t = key) arr"
  proof (cases "ticket_greater (arr ! J) (arr ! Suc J)")
    case True
    then have "\<not> (ticket_key (arr ! J) = key \<and> ticket_key (arr ! Suc J) = key)"
      using ticket_greater_key by metis
    then show ?thesis
      using True filter_swap_adjacent [OF len, of "\<lambda>t. ticket_key t = key"] by (simp add: arr')
  next
    case False
    then show ?thesis by (simp add: arr')
  qed
  show "\<forall>k<Suc J. ticket_less_eq (arr' ! k) (arr' ! Suc J)"
  proof (intro allI impI)
    fix k assume k: "k < Suc J"
    show "ticket_less_eq (arr' ! k) (arr' ! Suc J)"
    proof (cases "ticket_greater (arr ! J) (arr ! Suc J)")
      case True
      then have eq: "arr' = arr[J := arr ! Suc J, Suc J := arr ! J]"
        by (simp add: arr')
      show ?thesis
      proof (cases "k = J")
        case True
        then show ?thesis
          using len \<open>ticket_greater (arr ! J) (arr ! Suc J)\<close>
          by (simp add: eq ticket_greater_imp_less_eq)
      next
        case False
        then have "k < J" using k by simp
        then show ?thesis
          using len inv by (simp add: eq)
      qed
    next
      case False
      then have eq: "arr' = arr" and le: "ticket_less_eq (arr ! J) (arr ! Suc J)"
        by (simp_all add: arr' ticket_less_eq_def)
      show ?thesis
      proof (cases "k = J")
        case True
        then show ?thesis using le by (simp add: eq)
      next
        case False
        then have "k < J" using k by simp
        then have "ticket_less_eq (arr ! k) (arr ! J)" using inv by simp
        then show ?thesis using le ticket_less_eq_trans by (auto simp: eq)
      qed
    qed
  qed
qed

lemma bubbleSort_inner_spec:
  fixes n i j :: "32 word"
  assumes "0 \<le> sint j" "sint j \<le> sint (n - i - 1)" "sint (n - i - 1) < int (length arr)"
    and "\<forall>k<nat (sint j). ticket_less_eq (arr ! k) (arr ! nat (sint j))"
  shows "\<exists>arr'. bubbleSort_inner arr n i j = Inr arr'
           \<and> length arr' = length arr \<and> mset arr' = mset arr
           \<and> drop (Suc (nat (sint (n - i - 1)))) arr' = drop (Suc (nat (sint (n - i - 1)))) arr
           \<and> (\<forall>key. filter (\<lambda>t. ticket_key t = key) arr' = filter (\<lambda>t. ticket_key t = key) arr)
           \<and> (\<forall>k<nat (sint (n - i - 1)).
                 ticket_less_eq (arr' ! k) (arr' ! nat (sint (n - i - 1))))"
  using assms
proof (induction arr n i j rule: bubbleSort_inner.induct)
  case (1 arr n i j)
  define M where "M = nat (sint (n - i - 1))"
  show ?case
  proof (cases "sint j < sint (n - i - 1)")
    case False
    then have "sint j = sint (n - i - 1)" using "1.prems" by simp
    then show ?thesis
      using "1.prems" by (subst bubbleSort_inner.simps) simp
  next
    case True
    define J where "J = nat (sint j)"
    have j1: "sint (j + 1) = sint j + 1"
      using True by (rule sint_add1)
    have j: "sint j = int J" "sint (j + 1) = int (Suc J)"
      using "1.prems"(1) by (simp_all add: J_def j1)
    have len: "Suc J < length arr" and JM: "Suc J \<le> M"
      using True "1.prems" by (simp_all add: J_def M_def)
    define arr1 where "arr1 = (if ticket_greater (arr ! J) (arr ! Suc J)
                       then arr[J := arr ! Suc J, Suc J := arr ! J] else arr)"
    have at1: "at arr (sint j) = Inr (arr ! J)" and at2: "at arr (sint (j + 1)) = Inr (arr ! Suc J)"
      using len unfolding j by (simp_all add: at_def)
    have sw: "(if ticket_greater (arr ! J) (arr ! Suc J) then swap arr (sint j) (sint (j + 1))
               else Inr arr) = Inr arr1"
      using len unfolding j by (simp add: swap_def arr1_def)
    have inv: "\<forall>k<J. ticket_less_eq (arr ! k) (arr ! J)"
      using "1.prems"(4) by (simp add: J_def)
    note S = bubble_step [OF len inv arr1_def]
    have "\<exists>arr'. bubbleSort_inner arr1 n i (j + 1) = Inr arr'
           \<and> length arr' = length arr1 \<and> mset arr' = mset arr1
           \<and> drop (Suc (nat (sint (n - i - 1)))) arr' = drop (Suc (nat (sint (n - i - 1)))) arr1
           \<and> (\<forall>key. filter (\<lambda>t. ticket_key t = key) arr' = filter (\<lambda>t. ticket_key t = key) arr1)
           \<and> (\<forall>k<nat (sint (n - i - 1)).
                 ticket_less_eq (arr' ! k) (arr' ! nat (sint (n - i - 1))))"
    proof (rule "1.IH" [OF True at1 at2 sw])
      show "0 \<le> sint (j + 1)" "sint (j + 1) \<le> sint (n - i - 1)"
        using True "1.prems"(1) by (simp_all add: j1)
      show "sint (n - i - 1) < int (length arr1)"
        using "1.prems"(3) S(1) by simp
      show "\<forall>k<nat (sint (j + 1)). ticket_less_eq (arr1 ! k) (arr1 ! nat (sint (j + 1)))"
        using S(5) unfolding j by simp
    qed
    then obtain arr' where r: "bubbleSort_inner arr1 n i (j + 1) = Inr arr'"
      "length arr' = length arr1" "mset arr' = mset arr1"
      "drop (Suc M) arr' = drop (Suc M) arr1"
      "\<forall>key. filter (\<lambda>t. ticket_key t = key) arr' = filter (\<lambda>t. ticket_key t = key) arr1"
      "\<forall>k<M. ticket_less_eq (arr' ! k) (arr' ! M)"
      unfolding M_def by blast
    have "Suc J < Suc M"
      using JM by simp
    then have d: "drop (Suc M) arr1 = drop (Suc M) arr"
      by (rule S(3))
    have unf: "bubbleSort_inner arr n i j = bubbleSort_inner arr1 n i (j + 1)"
      by (subst bubbleSort_inner.simps) (simp add: True at1 at2 sw)
    show ?thesis
      unfolding unf M_def [symmetric] using r S(1,2,4) d by simp
  qed
qed

lemma bubbleSort_pass_bound:
  fixes n i :: "32 word"
  assumes "0 \<le> sint i" "sint i < sint (n - 1)"
  shows "sint (n - i - 1) = sint (n - 1) - sint i"
proof -
  have e: "n - i - 1 = (n - 1) - i"
    by simp
  show ?thesis
    unfolding e using assms by (intro sint_sub_nonneg) simp_all
qed

lemma bubbleSort_outer_stable:
  fixes n i :: "32 word"
  assumes "0 \<le> sint i" "sint (n - 1) < int (length arr)"
  shows "\<exists>arr'. bubbleSort_outer arr n i = Inr arr' \<and> length arr' = length arr
           \<and> mset arr' = mset arr
           \<and> (\<forall>key. filter (\<lambda>t. ticket_key t = key) arr' = filter (\<lambda>t. ticket_key t = key) arr)"
  using assms
proof (induction arr n i rule: bubbleSort_outer.induct)
  case (1 arr n i)
  show ?case
  proof (cases "sint i < sint (n - 1)")
    case False
    then show ?thesis
      by (subst bubbleSort_outer.simps) simp
  next
    case True
    have b: "sint (n - i - 1) = sint (n - 1) - sint i"
      using "1.prems"(1) True by (rule bubbleSort_pass_bound)
    have "\<exists>arr'. bubbleSort_inner arr n i 0 = Inr arr'
           \<and> length arr' = length arr \<and> mset arr' = mset arr
           \<and> drop (Suc (nat (sint (n - i - 1)))) arr' = drop (Suc (nat (sint (n - i - 1)))) arr
           \<and> (\<forall>key. filter (\<lambda>t. ticket_key t = key) arr' = filter (\<lambda>t. ticket_key t = key) arr)
           \<and> (\<forall>k<nat (sint (n - i - 1)).
                 ticket_less_eq (arr' ! k) (arr' ! nat (sint (n - i - 1))))"
    proof (rule bubbleSort_inner_spec)
      show "0 \<le> sint (0 :: 32 word)" "sint (0 :: 32 word) \<le> sint (n - i - 1)"
        using True by (simp_all add: b)
      show "sint (n - i - 1) < int (length arr)"
        using "1.prems" by (simp add: b)
      show "\<forall>k<nat (sint (0 :: 32 word)). ticket_less_eq (arr ! k) (arr ! nat (sint (0 :: 32 word)))"
        by simp
    qed
    then obtain arr1 where r: "bubbleSort_inner arr n i 0 = Inr arr1"
      "length arr1 = length arr" "mset arr1 = mset arr"
      "\<forall>key. filter (\<lambda>t. ticket_key t = key) arr1 = filter (\<lambda>t. ticket_key t = key) arr"
      by blast
    have "\<exists>arr'. bubbleSort_outer arr1 n (i + 1) = Inr arr' \<and> length arr' = length arr1
           \<and> mset arr' = mset arr1
           \<and> (\<forall>key. filter (\<lambda>t. ticket_key t = key) arr' = filter (\<lambda>t. ticket_key t = key) arr1)"
    proof (rule "1.IH" [OF True r(1)])
      show "0 \<le> sint (i + 1)"
        using "1.prems"(1) by (simp add: sint_add1 [OF True])
      show "sint (n - 1) < int (length arr1)"
        using "1.prems"(2) r(2) by simp
    qed
    moreover have "bubbleSort_outer arr n i = bubbleSort_outer arr1 n (i + 1)"
      by (subst bubbleSort_outer.simps) (simp add: True r(1))
    ultimately show ?thesis
      using r(2,3,4) by simp
  qed
qed

lemma bubbleSort_stable_all:
  "\<exists>arr'. bubbleSort arr = Inr arr' \<and> length arr' = length arr \<and> mset arr' = mset arr
     \<and> (\<forall>key. filter (\<lambda>t. ticket_key t = key) arr' = filter (\<lambda>t. ticket_key t = key) arr)"
  unfolding bubbleSort_def Let_def
  by (rule bubbleSort_outer_stable) (simp_all add: sint_of_nat_pred)

lemma mset_take_of_drop:
  assumes "mset a = mset b" "drop k a = drop k b"
  shows "mset (take k a) = mset (take k b)"
proof -
  have "mset (take k a) + mset (drop k a) = mset (take k b) + mset (drop k b)"
    using assms(1) by (simp flip: mset_append)
  then show ?thesis
    using assms(2) by simp
qed

lemma sorted_suffix_extend:
  assumes m: "m < length arr1"
    and len: "length arr1 = length arr"
    and ms: "mset arr1 = mset arr"
    and dr: "drop (Suc m) arr1 = drop (Suc m) arr"
    and mx: "\<forall>k<m. ticket_less_eq (arr1 ! k) (arr1 ! m)"
    and srt: "sorted_wrt ticket_less_eq (drop (Suc m) arr)"
    and sep: "\<forall>x\<in>set (take (Suc m) arr). \<forall>y\<in>set (drop (Suc m) arr). ticket_less_eq x y"
  shows "sorted_wrt ticket_less_eq (drop m arr1)"
    and "\<forall>x\<in>set (take m arr1). \<forall>y\<in>set (drop m arr1). ticket_less_eq x y"
proof -
  have "mset (take (Suc m) arr1) = mset (take (Suc m) arr)"
    using ms dr by (rule mset_take_of_drop)
  then have st: "set (take (Suc m) arr1) = set (take (Suc m) arr)"
    by (rule mset_eq_setD)
  have dm: "drop m arr1 = arr1 ! m # drop (Suc m) arr"
    using m dr by (simp flip: Cons_nth_drop_Suc)
  have "arr1 ! m \<in> set (take (Suc m) arr1)"
    using m by (auto simp: in_set_conv_nth intro!: exI [of _ m])
  then have top: "\<forall>y\<in>set (drop (Suc m) arr). ticket_less_eq (arr1 ! m) y"
    using st sep by blast
  show "sorted_wrt ticket_less_eq (drop m arr1)"
    using srt top by (simp add: dm)
  show "\<forall>x\<in>set (take m arr1). \<forall>y\<in>set (drop m arr1). ticket_less_eq x y"
  proof (intro ballI)
    fix x y assume x: "x \<in> set (take m arr1)" and y: "y \<in> set (drop m arr1)"
    from x obtain k where k: "k < m" "x = arr1 ! k"
      using m by (auto simp: in_set_conv_nth)
    have "x \<in> set (take (Suc m) arr1)"
      using x by (metis in_set_takeD le_add2 plus_1_eq_Suc set_take_subset_set_take subsetD)
    then have "x \<in> set (take (Suc m) arr)"
      using st by simp
    then show "ticket_less_eq x y"
      using y k mx sep by (auto simp: dm)
  qed
qed

lemma bubbleSort_outer_spec:
  fixes n i :: "32 word"
  assumes "0 \<le> sint i" "sint i < sint n" "sint n = int (length arr)"
    and "sorted_wrt ticket_less_eq (drop (nat (sint n - sint i)) arr)"
    and "\<forall>x\<in>set (take (nat (sint n - sint i)) arr).
           \<forall>y\<in>set (drop (nat (sint n - sint i)) arr). ticket_less_eq x y"
  shows "\<exists>arr'. bubbleSort_outer arr n i = Inr arr' \<and> mset arr' = mset arr
           \<and> sorted_wrt ticket_less_eq arr'"
  using assms
proof (induction arr n i rule: bubbleSort_outer.induct)
  case (1 arr n i)
  have n1: "sint (n - 1) = sint n - 1"
    using "1.prems"(2) by (rule sint_sub1)
  show ?case
  proof (cases "sint i < sint (n - 1)")
    case False
    then have i: "nat (sint n - sint i) = 1" using "1.prems"(2) by (simp add: n1)
    have "arr = take 1 arr @ drop 1 arr" by simp
    then have "sorted_wrt ticket_less_eq arr"
      using "1.prems"(4,5) unfolding i
      by (metis (no_types, lifting) sorted_wrt_append sorted_wrt1 sorted_wrt.simps(1) take_Suc_conv_app_nth
          One_nat_def take_0 append_Nil length_greater_0_conv take_eq_Nil)
    then show ?thesis
      using False by (subst bubbleSort_outer.simps) simp
  next
    case True
    have b: "sint (n - i - 1) = sint n - sint i - 1"
      using bubbleSort_pass_bound [OF "1.prems"(1) True] by (simp add: n1)
    have i1: "sint (i + 1) = sint i + 1"
      using True by (rule sint_add1)
    define m where "m = nat (sint n - sint i - 1)"
    have sm: "nat (sint n - sint i) = Suc m" and m: "m < length arr"
      and m': "nat (sint n - sint (i + 1)) = m"
      using True "1.prems"(1,3) by (simp_all add: m_def n1 i1)
    have "\<exists>arr'. bubbleSort_inner arr n i 0 = Inr arr'
           \<and> length arr' = length arr \<and> mset arr' = mset arr
           \<and> drop (Suc (nat (sint (n - i - 1)))) arr' = drop (Suc (nat (sint (n - i - 1)))) arr
           \<and> (\<forall>key. filter (\<lambda>t. ticket_key t = key) arr' = filter (\<lambda>t. ticket_key t = key) arr)
           \<and> (\<forall>k<nat (sint (n - i - 1)).
                 ticket_less_eq (arr' ! k) (arr' ! nat (sint (n - i - 1))))"
    proof (rule bubbleSort_inner_spec)
      show "0 \<le> sint (0 :: 32 word)" "sint (0 :: 32 word) \<le> sint (n - i - 1)"
        using True by (simp_all add: b n1)
      show "sint (n - i - 1) < int (length arr)"
        using "1.prems"(1,3) by (simp add: b)
      show "\<forall>k<nat (sint (0 :: 32 word)). ticket_less_eq (arr ! k) (arr ! nat (sint (0 :: 32 word)))"
        by simp
    qed
    then obtain arr1 where r: "bubbleSort_inner arr n i 0 = Inr arr1"
      "length arr1 = length arr" "mset arr1 = mset arr"
      "drop (Suc m) arr1 = drop (Suc m) arr"
      "\<forall>k<m. ticket_less_eq (arr1 ! k) (arr1 ! m)"
      unfolding b m_def by blast
    have m1: "m < length arr1" using m r(2) by simp
    note E = sorted_suffix_extend [OF m1 r(2,3,4,5) "1.prems"(4,5) [unfolded sm]]
    have "\<exists>arr'. bubbleSort_outer arr1 n (i + 1) = Inr arr' \<and> mset arr' = mset arr1
           \<and> sorted_wrt ticket_less_eq arr'"
    proof (rule "1.IH" [OF True r(1)])
      show "0 \<le> sint (i + 1)" "sint (i + 1) < sint n"
        using True "1.prems"(1) by (simp_all add: i1 n1)
      show "sint n = int (length arr1)" using "1.prems"(3) r(2) by simp
      show "sorted_wrt ticket_less_eq (drop (nat (sint n - sint (i + 1))) arr1)"
        unfolding m' by (rule E(1))
      show "\<forall>x\<in>set (take (nat (sint n - sint (i + 1))) arr1).
              \<forall>y\<in>set (drop (nat (sint n - sint (i + 1))) arr1). ticket_less_eq x y"
        unfolding m' by (rule E(2))
    qed
    then obtain arr' where r': "bubbleSort_outer arr1 n (i + 1) = Inr arr'" "mset arr' = mset arr1"
      "sorted_wrt ticket_less_eq arr'"
      by blast
    have unf: "bubbleSort_outer arr n i = bubbleSort_outer arr1 n (i + 1)"
      by (subst bubbleSort_outer.simps) (simp add: True r(1))
    show ?thesis
      unfolding unf using r' r(3) by simp
  qed
qed

lemma bubbleSort_spec:
  assumes "length arr < 2 ^ 31"
  shows "\<exists>arr'. bubbleSort arr = Inr arr' \<and> mset arr' = mset arr
     \<and> sorted_wrt ticket_less_eq arr'"
proof (cases "arr = []")
  case True
  then show ?thesis
    by (simp add: bubbleSort_def bubbleSort_outer.simps)
next
  case False
  have n: "sint (of_nat (length arr) :: 32 word) = int (length arr)"
    using assms by (rule sint_of_nat_32)
  show ?thesis
    unfolding bubbleSort_def Let_def
  proof (rule bubbleSort_outer_spec)
    show "0 \<le> sint (0 :: 32 word)" by simp
    show "sint (0 :: 32 word) < sint (of_nat (length arr) :: 32 word)"
      using False by (simp add: n)
    show "sint (of_nat (length arr) :: 32 word) = int (length arr)"
      by (rule n)
    show "sorted_wrt ticket_less_eq
        (drop (nat (sint (of_nat (length arr) :: 32 word) - sint (0 :: 32 word))) arr)"
      by (simp add: n)
    show "\<forall>x\<in>set (take (nat (sint (of_nat (length arr) :: 32 word) - sint (0 :: 32 word))) arr).
       \<forall>y\<in>set (drop (nat (sint (of_nat (length arr) :: 32 word) - sint (0 :: 32 word))) arr).
         ticket_less_eq x y"
      by (simp add: n)
  qed
qed

section \<open>Selection sort sorts\<close>

declare selectionSort_inner.simps [simp del] selectionSort_outer.simps [simp del]

lemma ticket_less_eq_refl: "ticket_less_eq a a"
  by (simp add: ticket_less_eq_def ticket_greater_def ticket_less_irrefl)

lemma ticket_less_imp_less_eq: "ticket_less a b \<Longrightarrow> ticket_less_eq a b"
  using ticket_less_asym by (auto simp: ticket_less_eq_def ticket_greater_def)

lemma ticket_less_less_eq_trans:
  "ticket_less a b \<Longrightarrow> ticket_less_eq b c \<Longrightarrow> ticket_less_eq a c"
  using ticket_less_imp_less_eq ticket_less_eq_trans by blast

lemma not_ticket_less_iff: "(\<not> ticket_less a b) = ticket_less_eq b a"
  by (simp add: ticket_less_eq_def ticket_greater_def)

lemma selectionSort_inner_spec:
  fixes n i min_idx j :: "32 word"
  assumes "0 \<le> sint i" "sint i \<le> sint min_idx" "sint min_idx < sint j" "sint j \<le> sint n"
    "sint n \<le> int (length arr)"
    and "\<forall>k. nat (sint i) \<le> k \<and> k < nat (sint j) \<longrightarrow>
           ticket_less_eq (arr ! nat (sint min_idx)) (arr ! k)"
  shows "\<exists>m. selectionSort_inner arr n min_idx j = Inr m \<and> sint i \<le> sint m \<and> sint m < sint n
           \<and> (\<forall>k. nat (sint i) \<le> k \<and> k < nat (sint n) \<longrightarrow>
                 ticket_less_eq (arr ! nat (sint m)) (arr ! k))"
  using assms
proof (induction arr n min_idx j rule: selectionSort_inner.induct)
  case (1 arr n min_idx j)
  show ?case
  proof (cases "sint j < sint n")
    case False
    then have "sint j = sint n" using "1.prems" by simp
    then show ?thesis
      using "1.prems" by (subst selectionSort_inner.simps) simp
  next
    case True
    have j1: "sint (j + 1) = sint j + 1"
      using True by (rule sint_add1)
    define m' where "m' = (if ticket_less (arr ! nat (sint j)) (arr ! nat (sint min_idx))
                          then j else min_idx)"
    have at1: "at arr (sint j) = Inr (arr ! nat (sint j))"
      and at2: "at arr (sint min_idx) = Inr (arr ! nat (sint min_idx))"
      using True "1.prems"(1-5) by (simp_all add: at_def)
    have inv: "\<forall>k. nat (sint i) \<le> k \<and> k < nat (sint (j + 1)) \<longrightarrow>
        ticket_less_eq (arr ! nat (sint m')) (arr ! k)"
    proof (intro allI impI)
      fix k assume k: "nat (sint i) \<le> k \<and> k < nat (sint (j + 1))"
      show "ticket_less_eq (arr ! nat (sint m')) (arr ! k)"
      proof (cases "ticket_less (arr ! nat (sint j)) (arr ! nat (sint min_idx))")
        case lt: True
        then have [simp]: "m' = j" by (simp add: m'_def)
        show ?thesis
        proof (cases "k = nat (sint j)")
          case True
          then show ?thesis by (simp add: ticket_less_eq_refl)
        next
          case False
          then have "k < nat (sint j)" using k "1.prems"(1-4) unfolding j1 by linarith
          then have "ticket_less_eq (arr ! nat (sint min_idx)) (arr ! k)"
            using k "1.prems"(6) by simp
          then show ?thesis
            using lt ticket_less_less_eq_trans by simp
        qed
      next
        case nlt: False
        then have [simp]: "m' = min_idx" by (simp add: m'_def)
        show ?thesis
        proof (cases "k = nat (sint j)")
          case True
          then show ?thesis using nlt by (simp add: not_ticket_less_iff)
        next
          case False
          then have "k < nat (sint j)" using k "1.prems"(1-4) unfolding j1 by linarith
          then show ?thesis
            using k "1.prems"(6) by simp
        qed
      qed
    qed
    have "\<exists>m. selectionSort_inner arr n m' (j + 1) = Inr m \<and> sint i \<le> sint m \<and> sint m < sint n
           \<and> (\<forall>k. nat (sint i) \<le> k \<and> k < nat (sint n) \<longrightarrow>
                 ticket_less_eq (arr ! nat (sint m)) (arr ! k))"
      unfolding m'_def
    proof (rule "1.IH" [OF True at1 at2])
      show "0 \<le> sint i" "sint (j + 1) \<le> sint n" "sint n \<le> int (length arr)"
        using True "1.prems"(1,5) by (simp_all add: j1)
      show "sint i \<le> sint (if ticket_less (arr ! nat (sint j)) (arr ! nat (sint min_idx))
                             then j else min_idx)"
        "sint (if ticket_less (arr ! nat (sint j)) (arr ! nat (sint min_idx)) then j else min_idx)
           < sint (j + 1)"
        using "1.prems"(2,3) by (auto simp: j1)
      show "\<forall>k. nat (sint i) \<le> k \<and> k < nat (sint (j + 1)) \<longrightarrow>
          ticket_less_eq (arr ! nat (sint (if ticket_less (arr ! nat (sint j)) (arr ! nat (sint min_idx))
                                           then j else min_idx))) (arr ! k)"
        using inv unfolding m'_def .
    qed
    moreover have "selectionSort_inner arr n min_idx j = selectionSort_inner arr n m' (j + 1)"
      by (subst selectionSort_inner.simps) (simp add: True at1 at2 m'_def)
    ultimately show ?thesis by simp
  qed
qed

text \<open>Whatever the size, the loops of selection sort stay within the vector.\<close>

lemma selectionSort_inner_returns:
  fixes n min_idx j :: "32 word"
  assumes "0 \<le> sint j" "sint n \<le> int (length arr)"
    and "sint j < sint n \<longrightarrow> 0 \<le> sint min_idx \<and> sint min_idx < int (length arr)"
  shows "\<exists>m. selectionSort_inner arr n min_idx j = Inr m
           \<and> (m = min_idx \<or> (sint j \<le> sint m \<and> sint m < sint n))"
  using assms
proof (induction arr n min_idx j rule: selectionSort_inner.induct)
  case (1 arr n min_idx j)
  show ?case
  proof (cases "sint j < sint n")
    case False
    then show ?thesis
      by (subst selectionSort_inner.simps) simp
  next
    case True
    have j1: "sint (j + 1) = sint j + 1"
      using True by (rule sint_add1)
    define m' where "m' = (if ticket_less (arr ! nat (sint j)) (arr ! nat (sint min_idx))
                          then j else min_idx)"
    have at1: "at arr (sint j) = Inr (arr ! nat (sint j))"
      and at2: "at arr (sint min_idx) = Inr (arr ! nat (sint min_idx))"
      using True "1.prems" by (simp_all add: at_def)
    have "\<exists>m. selectionSort_inner arr n m' (j + 1) = Inr m
           \<and> (m = m' \<or> (sint (j + 1) \<le> sint m \<and> sint m < sint n))"
      unfolding m'_def
    proof (rule "1.IH" [OF True at1 at2])
      show "0 \<le> sint (j + 1)" "sint n \<le> int (length arr)"
        using "1.prems"(1,2) by (simp_all add: j1)
      show "sint (j + 1) < sint n \<longrightarrow>
          0 \<le> sint (if ticket_less (arr ! nat (sint j)) (arr ! nat (sint min_idx)) then j else min_idx)
          \<and> sint (if ticket_less (arr ! nat (sint j)) (arr ! nat (sint min_idx)) then j else min_idx)
              < int (length arr)"
        using True "1.prems" by auto
    qed
    then obtain m where m: "selectionSort_inner arr n m' (j + 1) = Inr m"
      "m = m' \<or> (sint (j + 1) \<le> sint m \<and> sint m < sint n)"
      by blast
    have "m = min_idx \<or> (sint j \<le> sint m \<and> sint m < sint n)"
      using m(2) True by (auto simp: m'_def j1)
    moreover have "selectionSort_inner arr n min_idx j = selectionSort_inner arr n m' (j + 1)"
      by (subst selectionSort_inner.simps) (simp add: True at1 at2 m'_def)
    ultimately show ?thesis
      using m(1) by simp
  qed
qed

lemma selectionSort_outer_returns:
  fixes n i :: "32 word"
  assumes "0 \<le> sint i" "sint n \<le> int (length arr)"
  shows "\<exists>arr'. selectionSort_outer arr n i = Inr arr' \<and> length arr' = length arr"
  using assms
proof (induction arr n i rule: selectionSort_outer.induct)
  case (1 arr n i)
  show ?case
  proof (cases "sint i < sint (n - 1)")
    case False
    then show ?thesis
      by (subst selectionSort_outer.simps) simp
  next
    case True
    have i1: "sint (i + 1) = sint i + 1"
      using True by (rule sint_add1)
    have "\<exists>m. selectionSort_inner arr n i (i + 1) = Inr m
           \<and> (m = i \<or> (sint (i + 1) \<le> sint m \<and> sint m < sint n))"
    proof (rule selectionSort_inner_returns)
      show "0 \<le> sint (i + 1)" "sint n \<le> int (length arr)"
        using "1.prems" by (simp_all add: i1)
      show "sint (i + 1) < sint n \<longrightarrow> 0 \<le> sint i \<and> sint i < int (length arr)"
        using "1.prems" by (simp add: i1)
    qed
    then obtain m where m: "selectionSort_inner arr n i (i + 1) = Inr m"
      "m = i \<or> (sint (i + 1) \<le> sint m \<and> sint m < sint n)"
      by blast
    define arr2 where "arr2 = (if m \<noteq> i
        then arr[nat (sint i) := arr ! nat (sint m), nat (sint m) := arr ! nat (sint i)] else arr)"
    have "m \<noteq> i \<Longrightarrow> sint i < int (length arr) \<and> 0 \<le> sint m \<and> sint m < int (length arr)"
      using m(2) "1.prems" by (auto simp: i1)
    then have sw: "(if m \<noteq> i then swap arr (sint i) (sint m) else Inr arr) = Inr arr2"
      "length arr2 = length arr"
      using "1.prems"(1) by (auto simp: swap_def arr2_def)
    have "\<exists>arr'. selectionSort_outer arr2 n (i + 1) = Inr arr' \<and> length arr' = length arr2"
    proof (rule "1.IH" [OF True m(1) sw(1)])
      show "0 \<le> sint (i + 1)" "sint n \<le> int (length arr2)"
        using "1.prems" sw(2) by (simp_all add: i1)
    qed
    moreover have "selectionSort_outer arr n i = selectionSort_outer arr2 n (i + 1)"
      by (subst selectionSort_outer.simps) (simp only: True m(1) sw(1) if_True sum.case)
    ultimately show ?thesis
      using sw(2) by simp
  qed
qed

lemma selectionSort_returns: "\<exists>arr'. selectionSort arr = Inr arr' \<and> length arr' = length arr"
  unfolding selectionSort_def Let_def
  by (rule selectionSort_outer_returns) (simp_all add: sint_of_nat_le)

lemma mset_drop_of_take:
  assumes "mset a = mset b" "take k a = take k b"
  shows "mset (drop k a) = mset (drop k b)"
proof -
  have "mset (take k a) + mset (drop k a) = mset (take k b) + mset (drop k b)"
    using assms(1) by (simp flip: mset_append)
  then show ?thesis
    using assms(2) by simp
qed

lemma sorted_prefix_extend:
  assumes i: "i < length arr2"
    and ms: "mset arr2 = mset arr"
    and tk: "take i arr2 = take i arr"
    and mn: "\<forall>k. i < k \<and> k < length arr2 \<longrightarrow> ticket_less_eq (arr2 ! i) (arr2 ! k)"
    and srt: "sorted_wrt ticket_less_eq (take i arr)"
    and sep: "\<forall>x\<in>set (take i arr). \<forall>y\<in>set (drop i arr). ticket_less_eq x y"
  shows "sorted_wrt ticket_less_eq (take (Suc i) arr2)"
    and "\<forall>x\<in>set (take (Suc i) arr2). \<forall>y\<in>set (drop (Suc i) arr2). ticket_less_eq x y"
proof -
  have "mset (drop i arr2) = mset (drop i arr)"
    using ms tk by (rule mset_drop_of_take)
  then have st: "set (drop i arr2) = set (drop i arr)"
    by (rule mset_eq_setD)
  have ts: "take (Suc i) arr2 = take i arr @ [arr2 ! i]"
    using i tk by (simp add: take_Suc_conv_app_nth)
  have di: "drop i arr2 = arr2 ! i # drop (Suc i) arr2"
    using i by (simp add: Cons_nth_drop_Suc)
  then have "arr2 ! i \<in> set (drop i arr2)"
    by simp
  then have low: "\<forall>x\<in>set (take i arr). ticket_less_eq x (arr2 ! i)"
    using st sep by blast
  show "sorted_wrt ticket_less_eq (take (Suc i) arr2)"
    using srt low by (simp add: ts sorted_wrt_append)
  show "\<forall>x\<in>set (take (Suc i) arr2). \<forall>y\<in>set (drop (Suc i) arr2). ticket_less_eq x y"
  proof (intro ballI)
    fix x y assume x: "x \<in> set (take (Suc i) arr2)" and y: "y \<in> set (drop (Suc i) arr2)"
    from y obtain q where q: "q < length arr2 - Suc i" "y = arr2 ! (Suc i + q)"
      by (auto simp: in_set_conv_nth)
    have "y \<in> set (drop i arr2)"
      using y by (simp add: di)
    then have y': "y \<in> set (drop i arr)"
      using st by simp
    from x have "x \<in> set (take i arr) \<or> x = arr2 ! i"
      by (auto simp: ts)
    then show "ticket_less_eq x y"
    proof
      assume "x \<in> set (take i arr)"
      then show ?thesis using sep y' by blast
    next
      assume "x = arr2 ! i"
      then show ?thesis using mn q by simp
    qed
  qed
qed

lemma selectionSort_outer_spec:
  fixes n i :: "32 word"
  assumes "0 \<le> sint i" "sint i < sint n" "sint n = int (length arr)"
    and "sorted_wrt ticket_less_eq (take (nat (sint i)) arr)"
    and "\<forall>x\<in>set (take (nat (sint i)) arr). \<forall>y\<in>set (drop (nat (sint i)) arr). ticket_less_eq x y"
  shows "\<exists>arr'. selectionSort_outer arr n i = Inr arr' \<and> mset arr' = mset arr
           \<and> sorted_wrt ticket_less_eq arr'"
  using assms
proof (induction arr n i rule: selectionSort_outer.induct)
  case (1 arr n i)
  have n1: "sint (n - 1) = sint n - 1"
    using "1.prems"(2) by (rule sint_sub1)
  show ?case
  proof (cases "sint i < sint (n - 1)")
    case False
    then have i: "Suc (nat (sint i)) = length arr" using "1.prems"(1-3) by (simp add: n1)
    have "take (Suc (nat (sint i))) arr = take (nat (sint i)) arr @ [arr ! nat (sint i)]"
      using i by (intro take_Suc_conv_app_nth) simp
    then have dec: "arr = take (nat (sint i)) arr @ [arr ! nat (sint i)]"
      using i by simp
    have lt: "nat (sint i) < length arr"
      using i by linarith
    have "arr ! nat (sint i) \<in> set (arr ! nat (sint i) # drop (Suc (nat (sint i))) arr)"
      by simp
    then have "arr ! nat (sint i) \<in> set (drop (nat (sint i)) arr)"
      unfolding Cons_nth_drop_Suc [OF lt] .
    then have "\<forall>x\<in>set (take (nat (sint i)) arr). ticket_less_eq x (arr ! nat (sint i))"
      using "1.prems"(5) by blast
    then have "sorted_wrt ticket_less_eq (take (nat (sint i)) arr @ [arr ! nat (sint i)])"
      using "1.prems"(4) by (simp add: sorted_wrt_append)
    then have "sorted_wrt ticket_less_eq arr"
      using dec by simp
    then show ?thesis
      using False by (subst selectionSort_outer.simps) simp
  next
    case True
    have i1: "sint (i + 1) = sint i + 1"
      using True by (rule sint_add1)
    define I where "I = nat (sint i)"
    have I: "sint i = int I" "I < length arr" "nat (sint (i + 1)) = Suc I"
      using True "1.prems"(1-3) by (simp_all add: I_def i1 n1)
    have "\<exists>m. selectionSort_inner arr n i (i + 1) = Inr m \<and> sint i \<le> sint m \<and> sint m < sint n
           \<and> (\<forall>k. nat (sint i) \<le> k \<and> k < nat (sint n) \<longrightarrow>
                 ticket_less_eq (arr ! nat (sint m)) (arr ! k))"
    proof (rule selectionSort_inner_spec)
      show "0 \<le> sint i" "sint i \<le> sint i" "sint i < sint (i + 1)" "sint (i + 1) \<le> sint n"
        "sint n \<le> int (length arr)"
        using True "1.prems"(1-3) by (simp_all add: i1 n1)
      show "\<forall>k. nat (sint i) \<le> k \<and> k < nat (sint (i + 1)) \<longrightarrow>
          ticket_less_eq (arr ! nat (sint i)) (arr ! k)"
        unfolding I(3) I_def [symmetric] by (auto simp: ticket_less_eq_refl le_less_Suc_eq)
    qed
    then obtain m where r: "selectionSort_inner arr n i (i + 1) = Inr m" "sint i \<le> sint m"
      "sint m < sint n"
      "\<forall>k. I \<le> k \<and> k < length arr \<longrightarrow> ticket_less_eq (arr ! nat (sint m)) (arr ! k)"
      using "1.prems"(3) unfolding I_def by auto
    define M where "M = nat (sint m)"
    have M: "sint m = int M" "I \<le> M" "M < length arr"
      using r(2,3) "1.prems"(1,3) by (simp_all add: M_def I_def)
    have mi: "(m \<noteq> i) = (M \<noteq> I)"
      using M(1) I(1) by (metis signed_word_eqI int_int_eq)
    define arr2 where "arr2 = (if m \<noteq> i then arr[I := arr ! M, M := arr ! I] else arr)"
    have sw: "(if m \<noteq> i then swap arr (sint i) (sint m) else Inr arr) = Inr arr2"
      using M(3) I(2) unfolding M(1) I(1) by (simp add: swap_def arr2_def)
    have len2: "length arr2 = length arr"
      by (simp add: arr2_def)
    have ms2: "mset arr2 = mset arr"
      using mset_swap [of M arr I] I M by (simp add: arr2_def)
    have tk2: "take I arr2 = take I arr"
      using M by (simp add: arr2_def)
    have mn2: "\<forall>k. I < k \<and> k < length arr2 \<longrightarrow> ticket_less_eq (arr2 ! I) (arr2 ! k)"
    proof (intro allI impI)
      fix k assume k: "I < k \<and> k < length arr2"
      have a: "arr2 ! I = arr ! M"
        using I(2) M(2,3) by (auto simp: arr2_def mi nth_list_update)
      have "arr2 ! k = arr ! I \<or> arr2 ! k = arr ! k"
        using k I(2) M(2,3) by (auto simp: arr2_def nth_list_update)
      then show "ticket_less_eq (arr2 ! I) (arr2 ! k)"
        using r(4) k I(2) M(2,3) len2 unfolding a M_def [symmetric] by auto
    qed
    have I2: "I < length arr2" using I len2 by simp
    note E = sorted_prefix_extend [OF I2 ms2 tk2 mn2 "1.prems"(4,5) [folded I_def]]
    have "\<exists>arr'. selectionSort_outer arr2 n (i + 1) = Inr arr' \<and> mset arr' = mset arr2
           \<and> sorted_wrt ticket_less_eq arr'"
    proof (rule "1.IH" [OF True r(1) sw])
      show "0 \<le> sint (i + 1)" "sint (i + 1) < sint n"
        using True "1.prems"(1) by (simp_all add: i1 n1)
      show "sint n = int (length arr2)" using "1.prems"(3) len2 by simp
      show "sorted_wrt ticket_less_eq (take (nat (sint (i + 1))) arr2)"
        unfolding I(3) by (rule E(1))
      show "\<forall>x\<in>set (take (nat (sint (i + 1))) arr2). \<forall>y\<in>set (drop (nat (sint (i + 1))) arr2).
              ticket_less_eq x y"
        unfolding I(3) by (rule E(2))
    qed
    moreover have "selectionSort_outer arr n i = selectionSort_outer arr2 n (i + 1)"
      by (subst selectionSort_outer.simps) (simp only: True r(1) sw if_True sum.case)
    ultimately show ?thesis
      using ms2 by simp
  qed
qed

lemma selectionSort_spec:
  assumes "length arr < 2 ^ 31"
  shows "\<exists>arr'. selectionSort arr = Inr arr' \<and> mset arr' = mset arr
     \<and> sorted_wrt ticket_less_eq arr'"
proof (cases "arr = []")
  case True
  then show ?thesis
    by (simp add: selectionSort_def selectionSort_outer.simps)
next
  case False
  have n: "sint (of_nat (length arr) :: 32 word) = int (length arr)"
    using assms by (rule sint_of_nat_32)
  show ?thesis
    unfolding selectionSort_def Let_def
  proof (rule selectionSort_outer_spec)
    show "0 \<le> sint (0 :: 32 word)" by simp
    show "sint (0 :: 32 word) < sint (of_nat (length arr) :: 32 word)"
      using False by (simp add: n)
    show "sint (of_nat (length arr) :: 32 word) = int (length arr)"
      by (rule n)
    show "sorted_wrt ticket_less_eq (take (nat (sint (0 :: 32 word))) arr)"
      by simp
    show "\<forall>x\<in>set (take (nat (sint (0 :: 32 word))) arr).
       \<forall>y\<in>set (drop (nat (sint (0 :: 32 word))) arr). ticket_less_eq x y"
      by simp
  qed
qed

section \<open>Heap sort sorts\<close>

lemma of_nat_32_inj:
  assumes "a < 2 ^ 31" "b < 2 ^ 31"
  shows "((of_nat a :: 32 word) = of_nat b) = (a = b)"
  using sint_of_nat_32 [OF assms(1)] sint_of_nat_32 [OF assms(2)]
  by (metis int_int_eq)

lemma heapify_pick_nat:
  assumes "n \<le> length arr" "c < n \<longrightarrow> g < n" "n < 2 ^ 31" "c < 2 ^ 31" "g < 2 ^ 31"
  shows "heapify_pick arr (of_nat n) (of_nat c) (of_nat g)
           = Inr (of_nat (if c < n \<and> ticket_greater (arr ! c) (arr ! g) then c else g))"
  using assms(1,2)
  by (auto simp: heapify_pick_def at_def sint_of_nat_32 [OF assms(3)] sint_of_nat_32 [OF assms(4)]
      sint_of_nat_32 [OF assms(5)])

lemma heapify_unfold_nat:
  fixes arr :: "LotteryTicket list" and n i :: nat
  assumes n: "n \<le> length arr" and n30: "n < 2 ^ 30" and i30: "i < 2 ^ 30 - 1"
  defines "lg1 \<equiv> (if 2 * i + 1 < n \<and> ticket_greater (arr ! (2 * i + 1)) (arr ! i) then 2 * i + 1 else i)"
  defines "lg \<equiv> (if 2 * i + 2 < n \<and> ticket_greater (arr ! (2 * i + 2)) (arr ! lg1) then 2 * i + 2 else lg1)"
  shows "heapify arr (of_nat n) (of_nat i) =
           (if lg \<noteq> i then heapify (arr[i := arr ! lg, lg := arr ! i]) (of_nat n) (of_nat lg)
            else Some (Inr arr))"
proof -
  have e: "2 * (of_nat i :: 32 word) + 1 = of_nat (2 * i + 1)"
    "2 * (of_nat i :: 32 word) + 2 = of_nat (2 * i + 2)"
    by simp_all
  have b31: "n < 2 ^ 31" "i < 2 ^ 31" "2 * i + 1 < 2 ^ 31" "2 * i + 2 < 2 ^ 31"
    using n30 i30 by simp_all
  have lg31: "lg1 < 2 ^ 31" "lg < 2 ^ 31"
    using b31 by (simp_all add: lg_def lg1_def)
  have p1: "heapify_pick arr (of_nat n) (2 * of_nat i + 1) (of_nat i) = Inr (of_nat lg1)"
    unfolding e lg1_def by (rule heapify_pick_nat [OF n _ b31(1) b31(3) b31(2)]) simp
  have lg1: "2 * i + 2 < n \<longrightarrow> lg1 < n"
    by (simp add: lg1_def)
  have p2: "heapify_pick arr (of_nat n) (2 * of_nat i + 2) (of_nat lg1) = Inr (of_nat lg)"
    unfolding e lg_def by (rule heapify_pick_nat [OF n lg1 b31(1) b31(4) lg31(1)])
  have b: "lg \<noteq> i \<Longrightarrow> i < length arr \<and> lg < length arr"
    using n by (auto simp: lg_def lg1_def split: if_splits)
  have ne: "((of_nat lg :: 32 word) \<noteq> of_nat i) = (lg \<noteq> i)"
    by (simp add: of_nat_32_inj [OF lg31(2) b31(2)])
  have sw: "lg \<noteq> i \<Longrightarrow> swap arr (sint (of_nat i :: 32 word)) (sint (of_nat lg :: 32 word))
      = Inr (arr[i := arr ! lg, lg := arr ! i])"
    using b by (simp add: swap_def sint_of_nat_32 [OF b31(2)] sint_of_nat_32 [OF lg31(2)])
  show ?thesis
    by (subst heapify.simps) (simp add: p1 p2 Let_def ne sw)
qed

lemma ticket_less_eq_less_trans:
  "ticket_less_eq a b \<Longrightarrow> ticket_less b c \<Longrightarrow> ticket_less_eq a c"
  using ticket_less_imp_less_eq ticket_less_eq_trans by blast

lemma heapify_choice:
  fixes arr :: "LotteryTicket list" and n i :: nat
  defines "lg1 \<equiv> (if 2 * i + 1 < n \<and> ticket_greater (arr ! (2 * i + 1)) (arr ! i) then 2 * i + 1 else i)"
  defines "lg \<equiv> (if 2 * i + 2 < n \<and> ticket_greater (arr ! (2 * i + 2)) (arr ! lg1) then 2 * i + 2 else lg1)"
  shows "lg = i \<Longrightarrow> heap_node arr n i"
    and "lg \<noteq> i \<Longrightarrow> (lg = 2 * i + 1 \<or> lg = 2 * i + 2) \<and> lg < n \<and> ticket_less (arr ! i) (arr ! lg)"
    and "lg \<noteq> i \<Longrightarrow> c = 2 * i + 1 \<or> c = 2 * i + 2 \<Longrightarrow> c < n \<Longrightarrow> ticket_less_eq (arr ! c) (arr ! lg)"
proof -
  show "heap_node arr n i" if "lg = i"
    using that by (auto simp: lg_def lg1_def heap_node_def ticket_less_eq_def split: if_splits)
  show "(lg = 2 * i + 1 \<or> lg = 2 * i + 2) \<and> lg < n \<and> ticket_less (arr ! i) (arr ! lg)" if "lg \<noteq> i"
  proof (cases "2 * i + 2 < n \<and> ticket_greater (arr ! (2 * i + 2)) (arr ! lg1)")
    case True
    then have lg: "lg = 2 * i + 2" by (simp add: lg_def)
    have "ticket_less (arr ! i) (arr ! (2 * i + 2))"
    proof (cases "lg1 = i")
      case True
      then show ?thesis using \<open>2 * i + 2 < n \<and> ticket_greater (arr ! (2 * i + 2)) (arr ! lg1)\<close>
        by (simp add: ticket_greater_def)
    next
      case False
      then have "lg1 = 2 * i + 1" "ticket_less (arr ! i) (arr ! (2 * i + 1))"
        by (auto simp: lg1_def ticket_greater_def split: if_splits)
      then show ?thesis using True ticket_less_trans
        by (auto simp: ticket_greater_def)
    qed
    then show ?thesis using True lg by simp
  next
    case False
    then have "lg = lg1" by (auto simp: lg_def)
    then show ?thesis using that
      by (auto simp: lg1_def ticket_greater_def split: if_splits)
  qed
  show "ticket_less_eq (arr ! c) (arr ! lg)"
    if "lg \<noteq> i" "c = 2 * i + 1 \<or> c = 2 * i + 2" "c < n"
  proof (cases "c = lg")
    case True
    then show ?thesis by (simp add: ticket_less_eq_refl)
  next
    case False
    show ?thesis
    proof (cases "2 * i + 2 < n \<and> ticket_greater (arr ! (2 * i + 2)) (arr ! lg1)")
      case True
      then have lg: "lg = 2 * i + 2" by (simp add: lg_def)
      then have c: "c = 2 * i + 1" using that False by auto
      show ?thesis
      proof (cases "lg1 = i")
        case True
        then have "ticket_less_eq (arr ! (2 * i + 1)) (arr ! i)"
          using that c by (auto simp: lg1_def ticket_less_eq_def split: if_splits)
        moreover have "ticket_less (arr ! i) (arr ! (2 * i + 2))"
          using \<open>2 * i + 2 < n \<and> ticket_greater (arr ! (2 * i + 2)) (arr ! lg1)\<close> True
          by (simp add: ticket_greater_def)
        ultimately show ?thesis
          unfolding lg c by (rule ticket_less_eq_less_trans)
      next
        case False
        then have "lg1 = 2 * i + 1"
          by (auto simp: lg1_def split: if_splits)
        then show ?thesis
          using True unfolding lg c by (simp add: ticket_greater_imp_less_eq)
      qed
    next
      case F2: False
      then have lg: "lg = lg1" by (auto simp: lg_def)
      then have lg1: "lg1 = 2 * i + 1" using that(1)
        by (auto simp: lg1_def split: if_splits)
      then have c: "c = 2 * i + 2" using that False lg by auto
      then show ?thesis
        using F2 that(3) unfolding lg lg1 by (simp add: ticket_less_eq_def)
    qed
  qed
qed

lemma heapify_spec:
  fixes arr :: "LotteryTicket list" and n i l :: nat
  assumes "n \<le> length arr" and "n < 2 ^ 30" and "i < 2 ^ 30 - 1" and "l \<le> i"
    and "\<And>j. l \<le> j \<Longrightarrow> j < n \<Longrightarrow> j \<noteq> i \<Longrightarrow> heap_node arr n j"
    and "\<And>j. l \<le> j \<Longrightarrow> j < n \<Longrightarrow> 2 * j + 1 = i \<or> 2 * j + 2 = i \<Longrightarrow>
           (2 * i + 1 < n \<longrightarrow> ticket_less_eq (arr ! (2 * i + 1)) (arr ! j)) \<and>
           (2 * i + 2 < n \<longrightarrow> ticket_less_eq (arr ! (2 * i + 2)) (arr ! j))"
  shows "\<exists>arr'. heapify arr (of_nat n) (of_nat i) = Some (Inr arr') \<and> length arr' = length arr
           \<and> mset arr' = mset arr \<and> drop n arr' = drop n arr
           \<and> (\<forall>j. l \<le> j \<and> j < n \<longrightarrow> heap_node arr' n j)"
  using assms
proof (induction "n - i" arbitrary: arr i rule: less_induct)
  case less
  note n = less.prems(1) and n30 = less.prems(2) and i30 = less.prems(3) and li = less.prems(4)
    and pre1 = less.prems(5) and pre2 = less.prems(6)
  define lg1 where "lg1 = (if 2 * i + 1 < n \<and> ticket_greater (arr ! (2 * i + 1)) (arr ! i) then 2 * i + 1 else i)"
  define lg where "lg = (if 2 * i + 2 < n \<and> ticket_greater (arr ! (2 * i + 2)) (arr ! lg1) then 2 * i + 2 else lg1)"
  have unf: "heapify arr (of_nat n) (of_nat i) =
           (if lg \<noteq> i then heapify (arr[i := arr ! lg, lg := arr ! i]) (of_nat n) (of_nat lg)
            else Some (Inr arr))"
    unfolding lg_def lg1_def by (rule heapify_unfold_nat [OF n n30 i30])
  show ?case
  proof (cases "lg = i")
    case True
    have "heap_node arr n i"
      using True unfolding lg_def lg1_def by (rule heapify_choice(1))
    then have "\<forall>j. l \<le> j \<and> j < n \<longrightarrow> heap_node arr n j"
      using pre1 by blast
    then show ?thesis
      using True by (simp add: unf)
  next
    case False
    have ch: "(lg = 2 * i + 1 \<or> lg = 2 * i + 2) \<and> lg < n \<and> ticket_less (arr ! i) (arr ! lg)"
      using False unfolding lg_def lg1_def by (rule heapify_choice(2))
    have sib: "ticket_less_eq (arr ! c) (arr ! lg)" if "c = 2 * i + 1 \<or> c = 2 * i + 2" "c < n" for c
      using False that unfolding lg_def lg1_def by (rule heapify_choice(3))
    have lgn: "lg < n" "i < lg" "i < n" "lg < length arr" "i < length arr"
      using ch n by auto
    have lg30: "lg < 2 ^ 30 - 1"
      using lgn(1) n30 by simp
    define arr1 where "arr1 = arr[i := arr ! lg, lg := arr ! i]"
    have len1: "length arr1 = length arr"
      by (simp add: arr1_def)
    have ms1: "mset arr1 = mset arr"
      using mset_swap [of lg arr i] lgn by (simp add: arr1_def)
    have dr1: "drop n arr1 = drop n arr"
      using lgn by (simp add: arr1_def)
    have A: "arr1 ! k = (if k = lg then arr ! i else if k = i then arr ! lg else arr ! k)"
      if "k < length arr" for k
      using that by (simp add: arr1_def nth_list_update)
    have Ai: "arr1 ! i = arr ! lg" and Alg: "arr1 ! lg = arr ! i"
      using lgn by (simp_all add: A)
    have Ao: "arr1 ! k = arr ! k" if "k < n" "k \<noteq> i" "k \<noteq> lg" for k
      using that n by (simp add: A)
    have node_lg: "heap_node arr n lg"
      using pre1 [of lg] li lgn by simp
    have p1: "heap_node arr1 n j" if j: "l \<le> j" "j < n" "j \<noteq> lg" for j
    proof (cases "j = i")
      case True
      have "ticket_less_eq (arr1 ! c) (arr ! lg)" if c: "c = 2 * i + 1 \<or> c = 2 * i + 2" "c < n" for c
      proof (cases "c = lg")
        case True
        then show ?thesis
          using ch by (simp add: Alg ticket_less_imp_less_eq)
      next
        case False
        then have "arr1 ! c = arr ! c"
          using c by (intro Ao) auto
        then show ?thesis
          using sib [OF c] by simp
      qed
      then show ?thesis
        unfolding True heap_node_def Ai by simp
    next
      case False
      have hn: "heap_node arr n j"
        using pre1 j False by (metis ch less_irrefl)
      have aj: "arr1 ! j = arr ! j"
        using j False by (intro Ao) auto
      have "ticket_less_eq (arr1 ! c) (arr ! j)" if c: "c = 2 * j + 1 \<or> c = 2 * j + 2" "c < n" for c
      proof (cases "c = i")
        case True
        have "ticket_less_eq (arr ! lg) (arr ! j)"
          using pre2 [of j] j c True ch by auto
        then show ?thesis
          by (simp add: True Ai)
      next
        case ci: False
        have "c \<noteq> lg"
          using c ch False by auto
        then have "arr1 ! c = arr ! c"
          using c ci by (intro Ao) auto
        then show ?thesis
          using hn c by (auto simp: heap_node_def)
      qed
      then show ?thesis
        unfolding heap_node_def aj by simp
    qed
    have p2: "(2 * lg + 1 < n \<longrightarrow> ticket_less_eq (arr1 ! (2 * lg + 1)) (arr1 ! j)) \<and>
           (2 * lg + 2 < n \<longrightarrow> ticket_less_eq (arr1 ! (2 * lg + 2)) (arr1 ! j))"
      if j: "l \<le> j" "j < n" "2 * j + 1 = lg \<or> 2 * j + 2 = lg" for j
    proof -
      have "j = i" using j ch by auto
      moreover have "arr1 ! (2 * lg + 1) = arr ! (2 * lg + 1)" if "2 * lg + 1 < n"
        using that lgn by (intro Ao) auto
      moreover have "arr1 ! (2 * lg + 2) = arr ! (2 * lg + 2)" if "2 * lg + 2 < n"
        using that lgn by (intro Ao) auto
      ultimately show ?thesis
        using node_lg by (auto simp: Ai heap_node_def)
    qed
    have "\<exists>arr'. heapify arr1 (of_nat n) (of_nat lg) = Some (Inr arr') \<and> length arr' = length arr1
           \<and> mset arr' = mset arr1 \<and> drop n arr' = drop n arr1
           \<and> (\<forall>j. l \<le> j \<and> j < n \<longrightarrow> heap_node arr' n j)"
    proof (rule less.hyps)
      show "n - lg < n - i" using lgn by simp
      show "n \<le> length arr1" using n len1 by simp
      show "n < 2 ^ 30" by (rule n30)
      show "lg < 2 ^ 30 - 1" by (rule lg30)
      show "l \<le> lg" using li lgn by simp
      show "\<And>j. l \<le> j \<Longrightarrow> j < n \<Longrightarrow> j \<noteq> lg \<Longrightarrow> heap_node arr1 n j"
        by (rule p1)
      show "\<And>j. l \<le> j \<Longrightarrow> j < n \<Longrightarrow> 2 * j + 1 = lg \<or> 2 * j + 2 = lg \<Longrightarrow>
           (2 * lg + 1 < n \<longrightarrow> ticket_less_eq (arr1 ! (2 * lg + 1)) (arr1 ! j)) \<and>
           (2 * lg + 2 < n \<longrightarrow> ticket_less_eq (arr1 ! (2 * lg + 2)) (arr1 ! j))"
        by (rule p2)
    qed
    then show ?thesis
      using False len1 ms1 dr1 by (simp add: unf arr1_def [symmetric])
  qed
qed

declare heapSort_build.simps [simp del] heapSort_extract.simps [simp del]

lemma heap_root_max:
  assumes "\<forall>j<n. heap_node arr n j" "k < n"
  shows "ticket_less_eq (arr ! k) (arr ! 0)"
  using assms(2)
proof (induction k rule: less_induct)
  case (less k)
  show ?case
  proof (cases "k = 0")
    case True
    then show ?thesis by (simp add: ticket_less_eq_refl)
  next
    case False
    define p where "p = (k - 1) div 2"
    have p: "p < k" "k = 2 * p + 1 \<or> k = 2 * p + 2"
      using False unfolding p_def by presburger+
    have "heap_node arr n p"
      using assms(1) p less.prems by simp
    then have "ticket_less_eq (arr ! k) (arr ! p)"
      using p less.prems by (auto simp: heap_node_def)
    moreover have "ticket_less_eq (arr ! p) (arr ! 0)"
      using less.IH [of p] p less.prems by simp
    ultimately show ?thesis
      by (rule ticket_less_eq_trans)
  qed
qed

lemma heapSort_build_spec:
  fixes arr :: "LotteryTicket list" and N :: nat and i :: "32 word"
  assumes "- 1 \<le> sint i" "sint i < int N" "N \<le> length arr" "N < 2 ^ 30"
    and "\<forall>j. nat (sint i + 1) \<le> j \<and> j < N \<longrightarrow> heap_node arr N j"
  shows "\<exists>arr'. heapSort_build arr (of_nat N) i = Some (Inr arr') \<and> length arr' = length arr
           \<and> mset arr' = mset arr \<and> drop N arr' = drop N arr
           \<and> (\<forall>j<N. heap_node arr' N j)"
  using assms
proof (induction "nat (sint i + 1)" arbitrary: arr i)
  case 0
  then have "sint i = - 1" by simp
  then show ?case
    using "0.prems" by (subst heapSort_build.simps) simp
next
  case (Suc k)
  define I where "I = nat (sint i)"
  have i0: "0 \<le> sint i"
    using Suc.hyps(2) by simp
  have i1: "sint (i - 1) = sint i - 1"
    using i0 sint_sub1 [of "- 1" i] by simp
  have i: "i = of_nat I" "nat (sint i + 1) = Suc I" "k = nat (sint (i - 1) + 1)"
    "I = nat (sint (i - 1) + 1)"
    using Suc.hyps(2) i0 by (simp_all add: I_def i1)
  have I30: "I < 2 ^ 30 - 1"
    using Suc.prems(2,4) i0 by (simp add: I_def)
  have "\<exists>arr'. heapify arr (of_nat N) (of_nat I) = Some (Inr arr') \<and> length arr' = length arr
           \<and> mset arr' = mset arr \<and> drop N arr' = drop N arr
           \<and> (\<forall>j. I \<le> j \<and> j < N \<longrightarrow> heap_node arr' N j)"
  proof (rule heapify_spec)
    show "N \<le> length arr" "N < 2 ^ 30" "I < 2 ^ 30 - 1" "I \<le> I"
      using Suc.prems I30 by simp_all
    show "\<And>j. I \<le> j \<Longrightarrow> j < N \<Longrightarrow> j \<noteq> I \<Longrightarrow> heap_node arr N j"
      using Suc.prems(5) unfolding i(2) by simp
    show "\<And>j. I \<le> j \<Longrightarrow> j < N \<Longrightarrow> 2 * j + 1 = I \<or> 2 * j + 2 = I \<Longrightarrow>
         (2 * I + 1 < N \<longrightarrow> ticket_less_eq (arr ! (2 * I + 1)) (arr ! j)) \<and>
         (2 * I + 2 < N \<longrightarrow> ticket_less_eq (arr ! (2 * I + 2)) (arr ! j))"
      by linarith
  qed
  then obtain arr1 where r: "heapify arr (of_nat N) i = Some (Inr arr1)" "length arr1 = length arr"
    "mset arr1 = mset arr" "drop N arr1 = drop N arr"
    "\<forall>j. I \<le> j \<and> j < N \<longrightarrow> heap_node arr1 N j"
    unfolding i(1) by blast
  have "\<exists>arr'. heapSort_build arr1 (of_nat N) (i - 1) = Some (Inr arr') \<and> length arr' = length arr1
           \<and> mset arr' = mset arr1 \<and> drop N arr' = drop N arr1
           \<and> (\<forall>j<N. heap_node arr' N j)"
  proof (rule Suc.hyps(1))
    show "k = nat (sint (i - 1) + 1)" by (rule i(3))
    show "- 1 \<le> sint (i - 1)" "sint (i - 1) < int N" using i0 Suc.prems(2) by (simp_all add: i1)
    show "N \<le> length arr1" "N < 2 ^ 30" using Suc.prems r by simp_all
    show "\<forall>j. nat (sint (i - 1) + 1) \<le> j \<and> j < N \<longrightarrow> heap_node arr1 N j"
      using r(5) unfolding i(4) [symmetric] .
  qed
  moreover have "heapSort_build arr (of_nat N) i = heapSort_build arr1 (of_nat N) (i - 1)"
    by (subst heapSort_build.simps) (simp only: i0 r(1) if_True option.case sum.case)
  ultimately show ?case
    using r by simp
qed

lemma sorted_from_one:
  assumes "sorted_wrt ticket_less_eq (drop 1 arr)"
    and "\<forall>x\<in>set (take 1 arr). \<forall>y\<in>set (drop 1 arr). ticket_less_eq x y"
  shows "sorted_wrt ticket_less_eq arr"
  using assms by (cases arr) simp_all

lemma heapSort_extract_spec:
  fixes arr :: "LotteryTicket list" and i :: "32 word"
  assumes "0 \<le> sint i" "sint i < int (length arr)" "sint i < 2 ^ 30"
    and "\<forall>j<Suc (nat (sint i)). heap_node arr (Suc (nat (sint i))) j"
    and "sorted_wrt ticket_less_eq (drop (Suc (nat (sint i))) arr)"
    and "\<forall>x\<in>set (take (Suc (nat (sint i))) arr). \<forall>y\<in>set (drop (Suc (nat (sint i))) arr).
           ticket_less_eq x y"
  shows "\<exists>arr'. heapSort_extract arr i = Some (Inr arr') \<and> mset arr' = mset arr
           \<and> sorted_wrt ticket_less_eq arr'"
  using assms
proof (induction "nat (sint i)" arbitrary: arr i)
  case 0
  have i: "sint i = 0" using "0.hyps" "0.prems"(1) by simp
  have "sorted_wrt ticket_less_eq arr"
  proof (rule sorted_from_one)
    show "sorted_wrt ticket_less_eq (drop 1 arr)"
      using "0.prems"(5) unfolding i by simp
    show "\<forall>x\<in>set (take 1 arr). \<forall>y\<in>set (drop 1 arr). ticket_less_eq x y"
      using "0.prems"(6) unfolding i by simp
  qed
  then show ?case
    by (subst heapSort_extract.simps) (simp add: i)
next
  case (Suc k)
  define I where "I = nat (sint i)"
  have ipos: "0 < sint i"
    using Suc.hyps(2) by simp
  have i1: "sint (i - 1) = sint i - 1"
    using ipos sint_sub1 [of 0 i] by simp
  have i: "sint i = int I" "I < length arr" "0 < I" "i = of_nat I" "I < 2 ^ 30"
    and k: "k = nat (sint (i - 1))" "Suc (nat (sint (i - 1))) = I"
    using Suc.hyps(2) Suc.prems(1,2,3) by (simp_all add: I_def i1)
  have ne: "arr \<noteq> []" "0 < length arr"
    using i(2) by auto
  note heap = Suc.prems(4) [folded I_def] and srt = Suc.prems(5) [folded I_def]
    and sep = Suc.prems(6) [folded I_def]
  define arr1 where "arr1 = arr[0 := arr ! I, I := arr ! 0]"
  have sw: "swap arr 0 (sint i) = Inr arr1"
    using i(2) ne unfolding i(1) by (simp add: swap_def arr1_def)
  have len1: "length arr1 = length arr"
    by (simp add: arr1_def)
  have ms1: "mset arr1 = mset arr"
    using mset_swap [of I arr 0] i(2) ne by (simp add: arr1_def)
  have A: "arr1 ! q = (if q = I then arr ! 0 else if q = 0 then arr ! I else arr ! q)"
    if "q < length arr" for q
    using that ne by (auto simp: arr1_def nth_list_update)
  have dr1: "drop (Suc I) arr1 = drop (Suc I) arr"
    by (simp add: arr1_def)
  have rootmax: "ticket_less_eq (arr ! q) (arr ! 0)" if "q < Suc I" for q
    using heap that by (rule heap_root_max)
  have "\<exists>arr'. heapify arr1 (of_nat I) (of_nat 0) = Some (Inr arr') \<and> length arr' = length arr1
           \<and> mset arr' = mset arr1 \<and> drop I arr' = drop I arr1
           \<and> (\<forall>j. 0 \<le> j \<and> j < I \<longrightarrow> heap_node arr' I j)"
  proof (rule heapify_spec)
    show "I \<le> length arr1" "I < 2 ^ 30" "(0::nat) < 2 ^ 30 - 1" "(0::nat) \<le> 0"
      using i len1 by simp_all
    show "heap_node arr1 I j" if j: "0 \<le> j" "j < I" "j \<noteq> 0" for j
    proof -
      have hn: "heap_node arr (Suc I) j"
        using heap j by simp
      have aj: "arr1 ! j = arr ! j"
        using j i(2) by (simp add: A)
      have "arr1 ! c = arr ! c" if "c < I" "c = 2 * j + 1 \<or> c = 2 * j + 2" for c
        using that i(2) by (auto simp: A)
      then show ?thesis
        using hn unfolding heap_node_def aj by auto
    qed
    show "\<And>j. 0 \<le> j \<Longrightarrow> j < I \<Longrightarrow> 2 * j + 1 = 0 \<or> 2 * j + 2 = 0 \<Longrightarrow>
         (2 * 0 + 1 < I \<longrightarrow> ticket_less_eq (arr1 ! (2 * 0 + 1)) (arr1 ! j)) \<and>
         (2 * 0 + 2 < I \<longrightarrow> ticket_less_eq (arr1 ! (2 * 0 + 2)) (arr1 ! j))"
      by simp
  qed
  then obtain arr2 where r: "heapify arr1 i 0 = Some (Inr arr2)" "length arr2 = length arr1"
    "mset arr2 = mset arr1" "drop I arr2 = drop I arr1"
    "\<forall>j<I. heap_node arr2 I j"
    unfolding i(4) by auto
  have I2: "I < length arr2" and len2: "length arr2 = length arr" and ms2: "mset arr2 = mset arr"
    using i(2) r(2,3) len1 ms1 by simp_all
  have dr2: "drop (Suc I) arr2 = drop (Suc I) arr"
    using r(4) dr1 by (metis drop_Suc tl_drop)
  have top: "arr2 ! I = arr ! 0"
  proof -
    have "drop I arr2 ! 0 = drop I arr1 ! 0"
      using r(4) by simp
    then show ?thesis
      using I2 i(2) r(2) by (simp add: A)
  qed
  have "mset (take I arr2) = mset (take I arr1)"
    using r(3,4) by (rule mset_take_of_drop)
  then have st: "set (take I arr2) = set (take I arr1)"
    by (rule mset_eq_setD)
  have mx: "\<forall>q<I. ticket_less_eq (arr2 ! q) (arr2 ! I)"
  proof (intro allI impI)
    fix q assume q: "q < I"
    then have "arr2 ! q \<in> set (take I arr2)"
      using I2 by (auto simp: in_set_conv_nth intro!: exI [of _ q])
    then have "arr2 ! q \<in> set (take I arr1)"
      using st by simp
    then obtain p where p: "p < I" "arr2 ! q = arr1 ! p"
      using i(2) len1 by (auto simp: in_set_conv_nth)
    then have "arr1 ! p = arr ! I \<or> arr1 ! p = arr ! p"
      using i(2) by (simp add: A)
    then show "ticket_less_eq (arr2 ! q) (arr2 ! I)"
      unfolding top p(2) using rootmax [of I] rootmax [of p] p(1) by auto
  qed
  note E = sorted_suffix_extend [OF I2 len2 ms2 dr2 mx srt sep]
  have "\<exists>arr'. heapSort_extract arr2 (i - 1) = Some (Inr arr') \<and> mset arr' = mset arr2
           \<and> sorted_wrt ticket_less_eq arr'"
  proof (rule Suc.hyps(1))
    show "k = nat (sint (i - 1))" by (rule k(1))
    show "0 \<le> sint (i - 1)" "sint (i - 1) < int (length arr2)" "sint (i - 1) < 2 ^ 30"
      using ipos Suc.prems(2,3) len2 by (simp_all add: i1)
    show "\<forall>j<Suc (nat (sint (i - 1))). heap_node arr2 (Suc (nat (sint (i - 1)))) j"
      unfolding k(2) by (rule r(5))
    show "sorted_wrt ticket_less_eq (drop (Suc (nat (sint (i - 1)))) arr2)"
      unfolding k(2) by (rule E(1))
    show "\<forall>x\<in>set (take (Suc (nat (sint (i - 1)))) arr2).
            \<forall>y\<in>set (drop (Suc (nat (sint (i - 1)))) arr2). ticket_less_eq x y"
      unfolding k(2) by (rule E(2))
  qed
  moreover have "heapSort_extract arr i = heapSort_extract arr2 (i - 1)"
    by (subst heapSort_extract.simps) (simp only: ipos sw r(1) if_True option.case sum.case)
  ultimately show ?case
    using ms2 by simp
qed

lemma heapSort_first_parent:
  assumes "N < 2 ^ 30"
  shows "sint (of_int (sint (of_nat N :: 32 word) sdiv 2) - 1 :: 32 word) = int (N div 2) - 1"
proof -
  have n: "sint (of_nat N :: 32 word) = int N"
    using assms by (intro sint_of_nat_32) simp
  have d: "int N sdiv 2 = int (N div 2)"
    by (cases "N = 0") (simp_all add: signed_divide_int_def zdiv_int)
  have "N div 2 < 2 ^ 31"
    using assms by simp
  then have h: "sint (of_nat (N div 2) :: 32 word) = int (N div 2)"
    by (rule sint_of_nat_32)
  have "sint (- 1 :: 32 word) < sint (of_nat (N div 2) :: 32 word)"
    unfolding h by simp
  then have "sint (of_nat (N div 2) - 1 :: 32 word) = sint (of_nat (N div 2) :: 32 word) - 1"
    by (rule sint_sub1)
  then show ?thesis
    unfolding n d using h by simp
qed

lemma heapSort_spec:
  assumes "length arr < 2 ^ 30"
  shows "\<exists>arr'. heapSort arr = Some (Inr arr') \<and> mset arr' = mset arr
     \<and> sorted_wrt ticket_less_eq arr'"
proof (cases "arr = []")
  case True
  then show ?thesis
    by (simp add: heapSort_def heapSort_build.simps heapSort_extract.simps)
next
  case False
  define N where "N = length arr"
  have N: "0 < N" "N < 2 ^ 30" using False assms by (simp_all add: N_def)
  define i0 :: "32 word" where "i0 = of_int (sint (of_nat N :: 32 word) sdiv 2) - 1"
  have i0: "sint i0 = int (N div 2) - 1"
    unfolding i0_def using N(2) by (rule heapSort_first_parent)
  have n: "sint (of_nat N :: 32 word) = int N"
    using N(2) by (intro sint_of_nat_32) simp
  have "sint (0 :: 32 word) < sint (of_nat N :: 32 word)"
    unfolding n using N(1) by simp
  then have n1: "sint (of_nat N - 1 :: 32 word) = int N - 1"
    unfolding n [symmetric] by (rule sint_sub1)
  have "\<exists>arr'. heapSort_build arr (of_nat N) i0 = Some (Inr arr') \<and> length arr' = length arr
           \<and> mset arr' = mset arr \<and> drop N arr' = drop N arr
           \<and> (\<forall>j<N. heap_node arr' N j)"
  proof (rule heapSort_build_spec)
    show "- 1 \<le> sint i0" "sint i0 < int N" "N \<le> length arr" "N < 2 ^ 30"
      using N by (simp_all add: N_def i0)
    show "\<forall>j. nat (sint i0 + 1) \<le> j \<and> j < N \<longrightarrow> heap_node arr N j"
    proof (intro allI impI)
      fix j assume "nat (sint i0 + 1) \<le> j \<and> j < N"
      then have "N \<le> 2 * j + 1" unfolding i0 by linarith
      then show "heap_node arr N j" by (simp add: heap_node_def)
    qed
  qed
  then obtain arr1 where r: "heapSort_build arr (of_nat N) i0 = Some (Inr arr1)"
    "length arr1 = length arr" "mset arr1 = mset arr" "\<forall>j<N. heap_node arr1 N j"
    by blast
  have e: "Suc (nat (sint (of_nat N - 1 :: 32 word))) = N" using N by (simp add: n1)
  have "\<exists>arr'. heapSort_extract arr1 (of_nat N - 1) = Some (Inr arr') \<and> mset arr' = mset arr1
           \<and> sorted_wrt ticket_less_eq arr'"
  proof (rule heapSort_extract_spec)
    show "0 \<le> sint (of_nat N - 1 :: 32 word)" "sint (of_nat N - 1 :: 32 word) < int (length arr1)"
      "sint (of_nat N - 1 :: 32 word) < 2 ^ 30"
      unfolding n1 using N r(2) by (simp_all add: N_def)
    show "\<forall>j<Suc (nat (sint (of_nat N - 1 :: 32 word))).
        heap_node arr1 (Suc (nat (sint (of_nat N - 1 :: 32 word)))) j"
      unfolding e by (rule r(4))
    show "sorted_wrt ticket_less_eq (drop (Suc (nat (sint (of_nat N - 1 :: 32 word)))) arr1)"
      unfolding e using r(2) by (simp add: N_def)
    show "\<forall>x\<in>set (take (Suc (nat (sint (of_nat N - 1 :: 32 word)))) arr1).
        \<forall>y\<in>set (drop (Suc (nat (sint (of_nat N - 1 :: 32 word)))) arr1). ticket_less_eq x y"
      unfolding e using r(2) by (simp add: N_def)
  qed
  then show ?thesis
    using r(1,3) by (auto simp: heapSort_def Let_def N_def [symmetric] i0_def [symmetric])
qed

section \<open>The sorts read the keys only\<close>

lemma same_keys_refl: "same_keys xs xs"
  by (simp add: same_keys_def)

lemma same_keys_length: "same_keys a b \<Longrightarrow> length a = length b"
  unfolding same_keys_def by (rule map_eq_imp_length_eq)

lemma same_keys_nth:
  assumes "same_keys a b" "k < length a"
  shows "ticket_key (a ! k) = ticket_key (b ! k)"
proof -
  have "map ticket_key a ! k = map ticket_key b ! k"
    using assms(1) by (simp add: same_keys_def)
  then show ?thesis
    using assms(2) same_keys_length [OF assms(1)] by simp
qed

lemma same_keys_swap:
  assumes "same_keys a b" "p < length a" "q < length a"
  shows "same_keys (a[p := a ! q, q := a ! p]) (b[p := b ! q, q := b ! p])"
  using assms same_keys_nth [OF assms(1)]
  by (simp add: same_keys_def map_update)

lemma ticket_greater_key_cong:
  "ticket_key a = ticket_key a' \<Longrightarrow> ticket_key b = ticket_key b' \<Longrightarrow>
   ticket_greater a b = ticket_greater a' b'"
  unfolding ticket_greater_def by (rule ticket_less_key_cong)

lemma at_same_keys:
  assumes "same_keys a b"
  shows "(at a i = Inl IndexOutOfBounds \<and> at b i = Inl IndexOutOfBounds)
       \<or> (\<exists>x y. at a i = Inr x \<and> at b i = Inr y \<and> ticket_key x = ticket_key y)"
proof (cases "0 \<le> i \<and> i < int (length a)")
  case True
  then have "nat i < length a"
    by linarith
  then have "ticket_key (a ! nat i) = ticket_key (b ! nat i)"
    using assms by (intro same_keys_nth)
  then show ?thesis
    using True same_keys_length [OF assms] by (simp add: at_def)
next
  case False
  then show ?thesis
    using same_keys_length [OF assms] by (auto simp: at_def)
qed

lemma swap_same_keys:
  assumes "same_keys a b"
  shows "(swap a i j = Inl IndexOutOfBounds \<and> swap b i j = Inl IndexOutOfBounds)
       \<or> (\<exists>a' b'. swap a i j = Inr a' \<and> swap b i j = Inr b' \<and> same_keys a' b')"
proof (cases "0 \<le> i \<and> i < int (length a) \<and> 0 \<le> j \<and> j < int (length a)")
  case True
  then have "nat i < length a" "nat j < length a"
    by linarith+
  then have "same_keys (a[nat i := a ! nat j, nat j := a ! nat i])
      (b[nat i := b ! nat j, nat j := b ! nat i])"
    using assms by (intro same_keys_swap)
  then show ?thesis
    using True same_keys_length [OF assms] by (simp add: swap_def)
next
  case False
  then show ?thesis
    using same_keys_length [OF assms] by (auto simp: swap_def)
qed

lemma selectionSort_inner_sim:
  assumes "same_keys a b"
  shows "selectionSort_inner a n min_idx j = selectionSort_inner b n min_idx j"
  using assms
proof (induction a n min_idx j rule: selectionSort_inner.induct)
  case (1 arr n min_idx j)
  show ?case
  proof (cases "sint j < sint n")
    case False
    then show ?thesis
      by (subst selectionSort_inner.simps, subst (2) selectionSort_inner.simps) simp
  next
    case True
    from at_same_keys [OF "1.prems", of "sint j"] show ?thesis
    proof (elim disjE conjE exE)
      assume "at arr (sint j) = Inl IndexOutOfBounds" "at b (sint j) = Inl IndexOutOfBounds"
      then show ?thesis
        by (subst selectionSort_inner.simps, subst (2) selectionSort_inner.simps) (simp add: True)
    next
      fix x x' assume x: "at arr (sint j) = Inr x" "at b (sint j) = Inr x'"
        "ticket_key x = ticket_key x'"
      from at_same_keys [OF "1.prems", of "sint min_idx"] show ?thesis
      proof (elim disjE conjE exE)
        assume "at arr (sint min_idx) = Inl IndexOutOfBounds"
          "at b (sint min_idx) = Inl IndexOutOfBounds"
        then show ?thesis
          using x(1,2)
          by (subst selectionSort_inner.simps, subst (2) selectionSort_inner.simps) (simp add: True)
      next
        fix y y' assume y: "at arr (sint min_idx) = Inr y" "at b (sint min_idx) = Inr y'"
          "ticket_key y = ticket_key y'"
        have lt: "ticket_less x y = ticket_less x' y'"
          using x(3) y(3) by (rule ticket_less_key_cong)
        have "selectionSort_inner arr n (if ticket_less x y then j else min_idx) (j + 1)
            = selectionSort_inner b n (if ticket_less x y then j else min_idx) (j + 1)"
          using True x(1) y(1) "1.prems" by (rule "1.IH")
        then show ?thesis
          using x(1,2) y(1,2)
          by (subst selectionSort_inner.simps, subst (2) selectionSort_inner.simps)
            (simp add: True lt)
      qed
    qed
  qed
qed

lemma selectionSort_outer_sim:
  assumes "same_keys a b"
  shows "rel_sum (=) same_keys (selectionSort_outer a n i) (selectionSort_outer b n i)"
  using assms
proof (induction a n i arbitrary: b rule: selectionSort_outer.induct)
  case (1 arr n i)
  show ?case
  proof (cases "sint i < sint (n - 1)")
    case False
    then show ?thesis
      using "1.prems"
      by (subst selectionSort_outer.simps, subst (2) selectionSort_outer.simps) simp
  next
    case True
    have inner: "selectionSort_inner b n i (i + 1) = selectionSort_inner arr n i (i + 1)"
      using "1.prems" by (rule selectionSort_inner_sim [symmetric])
    show ?thesis
    proof (cases "selectionSort_inner arr n i (i + 1)")
      case (Inl e)
      then show ?thesis
        by (subst selectionSort_outer.simps, subst (2) selectionSort_outer.simps)
          (simp add: True inner)
    next
      case m: (Inr m)
      show ?thesis
      proof (cases "m = i")
        case same: True
        have "rel_sum (=) same_keys (selectionSort_outer arr n (i + 1)) (selectionSort_outer b n (i + 1))"
          using True m _ "1.prems" by (rule "1.IH") (simp add: same)
        then show ?thesis
          by (subst selectionSort_outer.simps, subst (2) selectionSort_outer.simps)
            (simp add: True inner m same)
      next
        case diff: False
        from swap_same_keys [OF "1.prems", of "sint i" "sint m"] show ?thesis
        proof (elim disjE conjE exE)
          assume "swap arr (sint i) (sint m) = Inl IndexOutOfBounds"
            "swap b (sint i) (sint m) = Inl IndexOutOfBounds"
          then show ?thesis
            by (subst selectionSort_outer.simps, subst (2) selectionSort_outer.simps)
              (simp add: True inner m diff)
        next
          fix a' b' assume s: "swap arr (sint i) (sint m) = Inr a'" "swap b (sint i) (sint m) = Inr b'"
            "same_keys a' b'"
          have "rel_sum (=) same_keys (selectionSort_outer a' n (i + 1)) (selectionSort_outer b' n (i + 1))"
            using True m _ s(3) by (rule "1.IH") (simp add: diff s(1))
          then show ?thesis
            by (subst selectionSort_outer.simps, subst (2) selectionSort_outer.simps)
              (simp add: True inner m diff s(1,2))
        qed
      qed
    qed
  qed
qed

lemma bubbleSort_inner_sim:
  assumes "same_keys a b"
  shows "rel_sum (=) same_keys (bubbleSort_inner a n i j) (bubbleSort_inner b n i j)"
  using assms
proof (induction a n i j arbitrary: b rule: bubbleSort_inner.induct)
  case (1 arr n i j)
  show ?case
  proof (cases "sint j < sint (n - i - 1)")
    case False
    then show ?thesis
      using "1.prems"
      by (subst bubbleSort_inner.simps, subst (2) bubbleSort_inner.simps) simp
  next
    case True
    from at_same_keys [OF "1.prems", of "sint j"] show ?thesis
    proof (elim disjE conjE exE)
      assume "at arr (sint j) = Inl IndexOutOfBounds" "at b (sint j) = Inl IndexOutOfBounds"
      then show ?thesis
        by (subst bubbleSort_inner.simps, subst (2) bubbleSort_inner.simps) (simp add: True)
    next
      fix x x' assume x: "at arr (sint j) = Inr x" "at b (sint j) = Inr x'"
        "ticket_key x = ticket_key x'"
      from at_same_keys [OF "1.prems", of "sint (j + 1)"] show ?thesis
      proof (elim disjE conjE exE)
        assume "at arr (sint (j + 1)) = Inl IndexOutOfBounds"
          "at b (sint (j + 1)) = Inl IndexOutOfBounds"
        then show ?thesis
          using x(1,2)
          by (subst bubbleSort_inner.simps, subst (2) bubbleSort_inner.simps) (simp add: True)
      next
        fix y y' assume y: "at arr (sint (j + 1)) = Inr y" "at b (sint (j + 1)) = Inr y'"
          "ticket_key y = ticket_key y'"
        have gt: "ticket_greater x y = ticket_greater x' y'"
          using x(3) y(3) by (rule ticket_greater_key_cong)
        show ?thesis
        proof (cases "ticket_greater x y")
          case no: False
          have "rel_sum (=) same_keys (bubbleSort_inner arr n i (j + 1)) (bubbleSort_inner b n i (j + 1))"
            using True x(1) y(1) _ "1.prems" by (rule "1.IH") (simp add: no)
          then show ?thesis
            using x(1,2) y(1,2) no gt
            by (subst bubbleSort_inner.simps, subst (2) bubbleSort_inner.simps) (simp add: True)
        next
          case yes: True
          from swap_same_keys [OF "1.prems", of "sint j" "sint (j + 1)"] show ?thesis
          proof (elim disjE conjE exE)
            assume "swap arr (sint j) (sint (j + 1)) = Inl IndexOutOfBounds"
              "swap b (sint j) (sint (j + 1)) = Inl IndexOutOfBounds"
            then show ?thesis
              using x(1,2) y(1,2) yes gt
              by (subst bubbleSort_inner.simps, subst (2) bubbleSort_inner.simps) (simp add: True)
          next
            fix a' b' assume s: "swap arr (sint j) (sint (j + 1)) = Inr a'"
              "swap b (sint j) (sint (j + 1)) = Inr b'" "same_keys a' b'"
            have "rel_sum (=) same_keys (bubbleSort_inner a' n i (j + 1)) (bubbleSort_inner b' n i (j + 1))"
              using True x(1) y(1) _ s(3) by (rule "1.IH") (simp add: yes s(1))
            then show ?thesis
              using x(1,2) y(1,2) yes gt s(1,2)
              by (subst bubbleSort_inner.simps, subst (2) bubbleSort_inner.simps) (simp add: True)
          qed
        qed
      qed
    qed
  qed
qed

lemma bubbleSort_outer_sim:
  assumes "same_keys a b"
  shows "rel_sum (=) same_keys (bubbleSort_outer a n i) (bubbleSort_outer b n i)"
  using assms
proof (induction a n i arbitrary: b rule: bubbleSort_outer.induct)
  case (1 arr n i)
  show ?case
  proof (cases "sint i < sint (n - 1)")
    case False
    then show ?thesis
      using "1.prems"
      by (subst bubbleSort_outer.simps, subst (2) bubbleSort_outer.simps) simp
  next
    case True
    have inner: "rel_sum (=) same_keys (bubbleSort_inner arr n i 0) (bubbleSort_inner b n i 0)"
      using "1.prems" by (rule bubbleSort_inner_sim)
    show ?thesis
    proof (cases "bubbleSort_inner arr n i 0")
      case (Inl e)
      then have "bubbleSort_inner b n i 0 = Inl e"
        using inner by (cases "bubbleSort_inner b n i 0") simp_all
      then show ?thesis
        using Inl
        by (subst bubbleSort_outer.simps, subst (2) bubbleSort_outer.simps) (simp add: True)
    next
      case a': (Inr a')
      then obtain b' where b': "bubbleSort_inner b n i 0 = Inr b'" "same_keys a' b'"
        using inner by (cases "bubbleSort_inner b n i 0") simp_all
      have "rel_sum (=) same_keys (bubbleSort_outer a' n (i + 1)) (bubbleSort_outer b' n (i + 1))"
        using True a' b'(2) by (rule "1.IH")
      then show ?thesis
        using a' b'(1)
        by (subst bubbleSort_outer.simps, subst (2) bubbleSort_outer.simps) (simp add: True)
    qed
  qed
qed

lemma heapify_pick_sim:
  assumes "same_keys a b"
  shows "heapify_pick a n c g = heapify_pick b n c g"
proof (cases "sint c < sint n")
  case False
  then show ?thesis by (simp add: heapify_pick_def)
next
  case True
  from at_same_keys [OF assms, of "sint c"] at_same_keys [OF assms, of "sint g"]
  show ?thesis
    by (auto simp: heapify_pick_def True dest: ticket_greater_key_cong)
qed

lemma heapify_pick_cases:
  "heapify_pick arr n c g = Inr r \<Longrightarrow> r = g \<or> (r = c \<and> sint c < sint n \<and> 0 \<le> sint c)"
  by (auto simp: heapify_pick_def at_def split: if_splits sum.splits)

lemma heapify_pick_below:
  "heapify_pick arr n c g = Inr r \<Longrightarrow> sint c < sint n \<Longrightarrow> 0 \<le> sint c"
  by (auto simp: heapify_pick_def at_def split: if_splits sum.splits)

lemma swap_Inr_nonneg: "swap arr i j = Inr arr' \<Longrightarrow> 0 \<le> i"
  by (auto simp: swap_def split: if_splits)

lemma sint_left_child:
  fixes i :: "32 word"
  assumes "0 \<le> sint i" "0 \<le> sint (2 * i + 1)"
  shows "sint (2 * i + 1) = 2 * sint i + 1"
proof -
  have "signed_take_bit 31 (signed_take_bit 31 (2 * sint i) + signed_take_bit 31 1)
      = signed_take_bit 31 (2 * sint i + 1)"
    by (rule signed_take_bit_add)
  moreover have "signed_take_bit 31 (1 :: int) = 1"
    by simp
  ultimately have s: "sint (2 * i + 1) = signed_take_bit 31 (2 * sint i + 1)"
    by (simp add: sint_word_ariths)
  have "2 * sint i + 1 < 2 ^ 31"
  proof (rule ccontr)
    assume "\<not> 2 * sint i + 1 < 2 ^ 31"
    define K where "K = signed_take_bit 31 (2 * sint i + 1)"
    have "(2 :: int) ^ 31 \<le> 2 * sint i + 1"
      using \<open>\<not> 2 * sint i + 1 < 2 ^ 31\<close> by simp
    then have "K \<le> 2 * sint i + 1 - 2 ^ Suc 31"
      unfolding K_def by (rule signed_take_bit_int_less_eq)
    moreover have "0 \<le> K"
      using assms(2) unfolding s K_def .
    moreover have "sint i < 2 ^ 31"
      using sint_lt [of i] by simp
    ultimately show False
      by simp
  qed
  then show ?thesis
    unfolding s using assms(1) by (simp add: signed_take_bit_int_eq_self)
qed

lemma sint_right_child:
  fixes i :: "32 word"
  assumes "0 \<le> sint i" "sint i < 2 ^ 31 - 1" "0 \<le> sint (2 * i + 2)"
  shows "sint (2 * i + 2) = 2 * sint i + 2"
proof -
  have "signed_take_bit 31 (signed_take_bit 31 (2 * sint i) + signed_take_bit 31 2)
      = signed_take_bit 31 (2 * sint i + 2)"
    by (rule signed_take_bit_add)
  moreover have "signed_take_bit 31 (2 :: int) = 2"
    by (simp add: signed_take_bit_int_eq_self)
  ultimately have s: "sint (2 * i + 2) = signed_take_bit 31 (2 * sint i + 2)"
    by (simp add: sint_word_ariths)
  have "2 * sint i + 2 < 2 ^ 31"
  proof (rule ccontr)
    assume "\<not> 2 * sint i + 2 < 2 ^ 31"
    define K where "K = signed_take_bit 31 (2 * sint i + 2)"
    have "(2 :: int) ^ 31 \<le> 2 * sint i + 2"
      using \<open>\<not> 2 * sint i + 2 < 2 ^ 31\<close> by simp
    then have "K \<le> 2 * sint i + 2 - 2 ^ Suc 31"
      unfolding K_def by (rule signed_take_bit_int_less_eq)
    moreover have "0 \<le> K"
      using assms(3) unfolding s K_def .
    ultimately show False
      using assms(2) by simp
  qed
  then show ?thesis
    unfolding s using assms(1) by (simp add: signed_take_bit_int_eq_self)
qed

lemma sint_left_child_of_max:
  fixes i :: "32 word"
  assumes "sint i = 2 ^ 31 - 1"
  shows "sint (2 * i + 1) = - 1"
proof -
  have "sint i = sint (2147483647 :: 32 word)"
    using assms by simp
  then have "i = 2147483647"
    by (rule signed_word_eqI)
  then show ?thesis
    by simp
qed

text \<open>A recursive call of \<^verbatim>\<open>heapify\<close> is on an index above \<open>i\<close> and below \<open>n\<close>, also where
  the doubling wraps around: a wrapped child is negative, and stops at the vector's range.\<close>

lemma heapify_child_above:
  fixes i :: "32 word"
  assumes i: "0 \<le> sint i"
    and l1: "heapify_pick arr n (2 * i + 1) i = Inr l1"
    and lg: "heapify_pick arr n (2 * i + 2) l1 = Inr lg"
    and ne: "lg \<noteq> i"
  shows "sint i < sint lg \<and> sint lg < sint n"
proof -
  from heapify_pick_cases [OF lg] show ?thesis
  proof (elim disjE conjE)
    assume "lg = l1"
    then have "lg = 2 * i + 1" "sint (2 * i + 1) < sint n" "0 \<le> sint (2 * i + 1)"
      using heapify_pick_cases [OF l1] ne by auto
    then show ?thesis
      using sint_left_child [OF i] i by simp
  next
    assume r: "lg = 2 * i + 2" "sint (2 * i + 2) < sint n" "0 \<le> sint (2 * i + 2)"
    have "sint i \<noteq> 2 ^ 31 - 1"
    proof
      assume "sint i = 2 ^ 31 - 1"
      then have "sint (2 * i + 1) = - 1"
        by (rule sint_left_child_of_max)
      moreover have "sint (2 * i + 1) < sint n \<Longrightarrow> 0 \<le> sint (2 * i + 1)"
        using l1 by (rule heapify_pick_below)
      ultimately show False
        using r(2,3) by simp
    qed
    then have "sint i < 2 ^ 31 - 1"
      using sint_lt [of i] by simp
    then have "sint (2 * i + 2) = 2 * sint i + 2"
      using i r(3) by (intro sint_right_child)
    then show ?thesis
      using r(1,2) i by simp
  qed
qed

lemma heapify_sim:
  assumes "same_keys a b"
  shows "\<exists>ra rb. heapify a n i = Some ra \<and> heapify b n i = Some rb \<and> rel_sum (=) same_keys ra rb"
  using assms
proof (induction "nat (sint n - sint i)" arbitrary: a b i rule: less_induct)
  case less
  have pick: "heapify_pick b n c g = heapify_pick a n c g" for c g
    using less.prems by (rule heapify_pick_sim [symmetric])
  show ?case
  proof (cases "heapify_pick a n (2 * i + 1) i")
    case (Inl e)
    then show ?thesis
      by (subst heapify.simps, subst (2) heapify.simps) (simp add: Let_def pick)
  next
    case l1: (Inr l1)
    show ?thesis
    proof (cases "heapify_pick a n (2 * i + 2) l1")
      case (Inl e)
      then show ?thesis
        using l1 by (subst heapify.simps, subst (2) heapify.simps) (simp add: Let_def pick)
    next
      case lg: (Inr lg)
      show ?thesis
      proof (cases "lg = i")
        case True
        then show ?thesis
          using l1 lg less.prems
          by (subst heapify.simps, subst (2) heapify.simps) (simp add: Let_def pick)
      next
        case False
        from swap_same_keys [OF less.prems, of "sint i" "sint lg"] show ?thesis
        proof (elim disjE conjE exE)
          assume "swap a (sint i) (sint lg) = Inl IndexOutOfBounds"
            "swap b (sint i) (sint lg) = Inl IndexOutOfBounds"
          then show ?thesis
            using l1 lg False
            by (subst heapify.simps, subst (2) heapify.simps) (simp add: Let_def pick)
        next
          fix a' b' assume s: "swap a (sint i) (sint lg) = Inr a'" "swap b (sint i) (sint lg) = Inr b'"
            "same_keys a' b'"
          have "0 \<le> sint i"
            using s(1) by (rule swap_Inr_nonneg)
          then have "sint i < sint lg \<and> sint lg < sint n"
            using l1 lg False by (rule heapify_child_above)
          then have "nat (sint n - sint lg) < nat (sint n - sint i)"
            by simp
          then have "\<exists>ra rb. heapify a' n lg = Some ra \<and> heapify b' n lg = Some rb
              \<and> rel_sum (=) same_keys ra rb"
            using s(3) by (rule less.hyps)
          then show ?thesis
            using l1 lg False s(1,2)
            by (subst heapify.simps, subst (2) heapify.simps) (simp add: Let_def pick)
        qed
      qed
    qed
  qed
qed

lemma heapify_returns: "\<exists>r. heapify arr n i = Some r"
  using heapify_sim [OF same_keys_refl, of arr n i] by blast

lemma heapSort_build_sim:
  assumes "same_keys a b"
  shows "\<exists>ra rb. heapSort_build a n i = Some ra \<and> heapSort_build b n i = Some rb
           \<and> rel_sum (=) same_keys ra rb"
  using assms
proof (induction a n i arbitrary: b rule: heapSort_build.induct)
  case (1 arr n i)
  show ?case
  proof (cases "0 \<le> sint i")
    case False
    then show ?thesis
      using "1.prems"
      by (subst heapSort_build.simps, subst (2) heapSort_build.simps) simp
  next
    case True
    obtain ra rb where h: "heapify arr n i = Some ra" "heapify b n i = Some rb"
      "rel_sum (=) same_keys ra rb"
      using heapify_sim [OF "1.prems"] by blast
    show ?thesis
    proof (cases ra)
      case (Inl e)
      then have "rb = Inl e"
        using h(3) by (cases rb) simp_all
      then show ?thesis
        using h(1,2) Inl
        by (subst heapSort_build.simps, subst (2) heapSort_build.simps) (simp add: True)
    next
      case a': (Inr a')
      then obtain b' where b': "rb = Inr b'" "same_keys a' b'"
        using h(3) by (cases rb) simp_all
      have "\<exists>ra rb. heapSort_build a' n (i - 1) = Some ra \<and> heapSort_build b' n (i - 1) = Some rb
           \<and> rel_sum (=) same_keys ra rb"
        using True h(1) a' b'(2) by (rule "1.IH")
      then show ?thesis
        using h(1,2) a' b'(1)
        by (subst heapSort_build.simps, subst (2) heapSort_build.simps) (simp add: True)
    qed
  qed
qed

lemma heapSort_extract_sim:
  assumes "same_keys a b"
  shows "\<exists>ra rb. heapSort_extract a i = Some ra \<and> heapSort_extract b i = Some rb
           \<and> rel_sum (=) same_keys ra rb"
  using assms
proof (induction a i arbitrary: b rule: heapSort_extract.induct)
  case (1 arr i)
  show ?case
  proof (cases "0 < sint i")
    case False
    then show ?thesis
      using "1.prems"
      by (subst heapSort_extract.simps, subst (2) heapSort_extract.simps) simp
  next
    case True
    from swap_same_keys [OF "1.prems", of 0 "sint i"] show ?thesis
    proof (elim disjE conjE exE)
      assume "swap arr 0 (sint i) = Inl IndexOutOfBounds" "swap b 0 (sint i) = Inl IndexOutOfBounds"
      then show ?thesis
        by (subst heapSort_extract.simps, subst (2) heapSort_extract.simps) (simp add: True)
    next
      fix a1 b1 assume s: "swap arr 0 (sint i) = Inr a1" "swap b 0 (sint i) = Inr b1"
        "same_keys a1 b1"
      obtain ra rb where h: "heapify a1 i 0 = Some ra" "heapify b1 i 0 = Some rb"
        "rel_sum (=) same_keys ra rb"
        using heapify_sim [OF s(3)] by blast
      show ?thesis
      proof (cases ra)
        case (Inl e)
        then have "rb = Inl e"
          using h(3) by (cases rb) simp_all
        then show ?thesis
          using h(1,2) Inl s(1,2)
          by (subst heapSort_extract.simps, subst (2) heapSort_extract.simps) (simp add: True)
      next
        case a2: (Inr a2)
        then obtain b2 where b2: "rb = Inr b2" "same_keys a2 b2"
          using h(3) by (cases rb) simp_all
        have "\<exists>ra rb. heapSort_extract a2 (i - 1) = Some ra \<and> heapSort_extract b2 (i - 1) = Some rb
             \<and> rel_sum (=) same_keys ra rb"
          using True s(1) h(1) a2 b2(2) by (rule "1.IH")
        then show ?thesis
          using h(1,2) a2 b2(1) s(1,2)
          by (subst heapSort_extract.simps, subst (2) heapSort_extract.simps) (simp add: True)
      qed
    qed
  qed
qed

lemma heapSort_sim:
  assumes "same_keys a b"
  shows "\<exists>ra rb. heapSort a = Some ra \<and> heapSort b = Some rb \<and> rel_sum (=) same_keys ra rb"
proof -
  define n :: "32 word" where "n = of_nat (length a)"
  have nb: "of_nat (length b) = n"
    using same_keys_length [OF assms] by (simp add: n_def)
  obtain ra rb where h: "heapSort_build a n (of_int (sint n sdiv 2) - 1) = Some ra"
    "heapSort_build b n (of_int (sint n sdiv 2) - 1) = Some rb" "rel_sum (=) same_keys ra rb"
    using heapSort_build_sim [OF assms] by blast
  show ?thesis
  proof (cases ra)
    case (Inl e)
    then have "rb = Inl e"
      using h(3) by (cases rb) simp_all
    then show ?thesis
      using h(1,2) Inl by (simp add: heapSort_def Let_def nb n_def [symmetric])
  next
    case a': (Inr a')
    then obtain b' where b': "rb = Inr b'" "same_keys a' b'"
      using h(3) by (cases rb) simp_all
    show ?thesis
      using heapSort_extract_sim [OF b'(2), of "n - 1"] h(1,2) a' b'(1)
      by (simp add: heapSort_def Let_def nb n_def [symmetric])
  qed
qed

lemma selectionSort_sim:
  assumes "same_keys a b"
  shows "rel_sum (=) same_keys (selectionSort a) (selectionSort b)"
  using selectionSort_outer_sim [OF assms] same_keys_length [OF assms]
  by (simp add: selectionSort_def)

lemma bubbleSort_sim:
  assumes "same_keys a b"
  shows "rel_sum (=) same_keys (bubbleSort a) (bubbleSort b)"
  using bubbleSort_outer_sim [OF assms] same_keys_length [OF assms]
  by (simp add: bubbleSort_def)

section \<open>The reference sort, and the four algorithms together\<close>

lemma mset_std_sort_insert: "mset (std_sort_insert x xs) = add_mset x (mset xs)"
  by (induction xs) simp_all

lemma mset_std_sort: "mset (std_sort xs) = mset xs"
  by (induction xs) (simp_all add: mset_std_sort_insert)

lemma sorted_std_sort_insert:
  "sorted_wrt ticket_less_eq xs \<Longrightarrow> sorted_wrt ticket_less_eq (std_sort_insert x xs)"
proof (induction xs)
  case Nil
  then show ?case by simp
next
  case (Cons y ys)
  show ?case
  proof (cases "ticket_less x y")
    case True
    then have "\<forall>z\<in>set ys. ticket_less_eq x z"
      using Cons.prems ticket_less_less_eq_trans by auto
    then show ?thesis
      using True Cons.prems by (simp add: ticket_less_imp_less_eq)
  next
    case False
    then have "ticket_less_eq y x"
      by (simp add: not_ticket_less_iff)
    moreover have "set (std_sort_insert x ys) = insert x (set ys)"
      using mset_std_sort_insert [of x ys] by (metis set_mset_mset set_mset_add_mset_insert)
    ultimately show ?thesis
      using False Cons by simp
  qed
qed

lemma sorted_std_sort: "sorted_wrt ticket_less_eq (std_sort xs)"
  by (induction xs) (simp_all add: sorted_std_sort_insert)

lemma sorts_empty:
  "selectionSort [] = Inr []" "bubbleSort [] = Inr []" "heapSort [] = Some (Inr [])"
  by (simp_all add: selectionSort_def selectionSort_outer.simps bubbleSort_def
      bubbleSort_outer.simps heapSort_def heapSort_build.simps heapSort_extract.simps
      signed_divide_int_def)

lemma sorts_single:
  "selectionSort [x] = Inr [x]" "bubbleSort [x] = Inr [x]" "heapSort [x] = Some (Inr [x])"
  by (simp_all add: selectionSort_def selectionSort_outer.simps bubbleSort_def
      bubbleSort_outer.simps heapSort_def heapSort_build.simps heapSort_extract.simps
      signed_divide_int_def)

lemma sorts_beyond_int:
  assumes "sint (of_nat (length xs) - 1 :: 32 word) \<le> 0"
  shows "selectionSort xs = Inr xs" "bubbleSort xs = Inr xs"
    "bubbleSort_counted xs = Inr (xs, \<lparr>passes = 0, comparisons = 0, swaps = 0\<rparr>)"
  using assms
  by (simp_all add: selectionSort_def selectionSort_outer.simps bubbleSort_def
      bubbleSort_outer.simps bubbleSort_counted_def bubbleSort_outer_counted.simps)

lemma length_beyond_int:
  "sint (of_nat (length (replicate (2 ^ 31) x @ [y])) - 1 :: 32 word) = - (2 ^ 31)"
  "\<not> length (replicate (2 ^ 31) x @ [y]) < 2 ^ 31"
  by simp_all

lemma heapify_last_leaf:
  "heapify arr (2 ^ 30) (2 ^ 30 - 1) = Some (Inl IndexOutOfBounds)"
  by (subst heapify.simps) (simp add: heapify_pick_def at_def Let_def)

text \<open>On \<open>2^30\<close> tickets the first call of \<^verbatim>\<open>heapify\<close>, at \<open>2^29 - 1\<close>, swaps with the last
  element when that is greater, and calls itself at \<open>2^30 - 1\<close>, where \<^verbatim>\<open>2 * i + 2\<close> overflows.\<close>

lemma heapSort_beyond_int:
  assumes "ticket_greater y x"
  shows "heapSort (replicate (2 ^ 30 - 1) x @ [y]) = Some (Inl IndexOutOfBounds)"
proof -
  define L where "L = replicate (2 ^ 30 - 1) x @ [y]"
  have len: "length L = 2 ^ 30"
    by (simp add: L_def)
  have n: "(of_nat (length L) :: 32 word) = 2 ^ 30"
    unfolding len by simp
  have i0: "(of_int (sint (2 ^ 30 :: 32 word) sdiv 2) - 1 :: 32 word) = 2 ^ 29 - 1"
    by simp
  have a: "L ! (2 ^ 29 - 1) = x" "L ! (2 ^ 30 - 1) = y"
    by (simp_all add: L_def nth_append)
  have at1: "at L (sint (2 ^ 30 - 1 :: 32 word)) = Inr y" "at L (sint (2 ^ 29 - 1 :: 32 word)) = Inr x"
    using a by (simp_all add: at_def len)
  have p1: "heapify_pick L (2 ^ 30) (2 * (2 ^ 29 - 1) + 1) (2 ^ 29 - 1) = Inr (2 ^ 30 - 1)"
    using at1 assms by (simp add: heapify_pick_def)
  have p2: "heapify_pick L (2 ^ 30) (2 * (2 ^ 29 - 1) + 2) (2 ^ 30 - 1) = Inr (2 ^ 30 - 1)"
    by (simp add: heapify_pick_def)
  obtain L' where sw: "swap L (sint (2 ^ 29 - 1 :: 32 word)) (sint (2 ^ 30 - 1 :: 32 word)) = Inr L'"
    by (simp add: swap_def len)
  have "heapify L (2 ^ 30) (2 ^ 29 - 1) = Some (Inl IndexOutOfBounds)"
    by (subst heapify.simps) (simp only: Let_def p1 p2 sw heapify_last_leaf sum.case, simp)
  then have h: "heapify L 1073741824 536870911 = Some (Inl IndexOutOfBounds)"
    by simp
  show ?thesis
    unfolding L_def [symmetric] heapSort_def Let_def n i0
    by (subst heapSort_build.simps) (simp add: h)
qed

text \<open>
  C1 (amended). For every vector of fewer than \<open>2^31\<close> tickets, selection sort and bubble
  sort return (without leaving the vector's range) a vector with the same elements in
  the same numbers whose every earlier element is \<^verbatim>\<open><=\<close> every later one; so does heap
  sort for every vector of fewer than \<open>2^30\<close> tickets (its recursion returning), and so
  does the reference sort as modelled, for every vector. The empty and the one-element
  vector come back unchanged from all four.
\<close>

theorem sort_correctness:
  "(length xs < 2 ^ 31 \<longrightarrow>
      (\<exists>ys. selectionSort xs = Inr ys \<and> mset ys = mset xs \<and> sorted_wrt ticket_less_eq ys)
      \<and> (\<exists>ys. bubbleSort xs = Inr ys \<and> mset ys = mset xs \<and> sorted_wrt ticket_less_eq ys))
   \<and> (length xs < 2 ^ 30 \<longrightarrow>
      (\<exists>ys. heapSort xs = Some (Inr ys) \<and> mset ys = mset xs \<and> sorted_wrt ticket_less_eq ys))
   \<and> mset (std_sort xs) = mset xs \<and> sorted_wrt ticket_less_eq (std_sort xs)
   \<and> selectionSort [] = Inr [] \<and> bubbleSort [] = Inr [] \<and> heapSort [] = Some (Inr [])
   \<and> std_sort [] = []
   \<and> selectionSort [x] = Inr [x] \<and> bubbleSort [x] = Inr [x] \<and> heapSort [x] = Some (Inr [x])
   \<and> std_sort [x] = [x]"
proof -
  have "length xs < 2 ^ 31 \<longrightarrow>
      (\<exists>ys. selectionSort xs = Inr ys \<and> mset ys = mset xs \<and> sorted_wrt ticket_less_eq ys)
      \<and> (\<exists>ys. bubbleSort xs = Inr ys \<and> mset ys = mset xs \<and> sorted_wrt ticket_less_eq ys)"
    using selectionSort_spec [of xs] bubbleSort_spec [of xs] by blast
  moreover have "length xs < 2 ^ 30 \<longrightarrow>
      (\<exists>ys. heapSort xs = Some (Inr ys) \<and> mset ys = mset xs \<and> sorted_wrt ticket_less_eq ys)"
    using heapSort_spec [of xs] by blast
  ultimately show ?thesis
    by (simp add: mset_std_sort sorted_std_sort sorts_empty sorts_single)
qed

theorem sort_correctness_witness:
  "(\<exists>ys. selectionSort
       [\<lparr>ticketNumber = 7, cost = 1, lotteryDate = ''2024-05-01'', winAmount = 0\<rparr>,
        \<lparr>ticketNumber = 3, cost = 2, lotteryDate = ''2024-05-01'', winAmount = 0\<rparr>,
        \<lparr>ticketNumber = 5, cost = 3, lotteryDate = ''2024-04-01'', winAmount = 9\<rparr>] = Inr ys
      \<and> sorted_wrt ticket_less_eq ys)
   \<and> (\<exists>ys. bubbleSort
       [\<lparr>ticketNumber = 7, cost = 1, lotteryDate = ''2024-05-01'', winAmount = 0\<rparr>,
        \<lparr>ticketNumber = 3, cost = 2, lotteryDate = ''2024-05-01'', winAmount = 0\<rparr>,
        \<lparr>ticketNumber = 5, cost = 3, lotteryDate = ''2024-04-01'', winAmount = 9\<rparr>] = Inr ys
      \<and> sorted_wrt ticket_less_eq ys)
   \<and> (\<exists>ys. heapSort
       [\<lparr>ticketNumber = 7, cost = 1, lotteryDate = ''2024-05-01'', winAmount = 0\<rparr>,
        \<lparr>ticketNumber = 3, cost = 2, lotteryDate = ''2024-05-01'', winAmount = 0\<rparr>,
        \<lparr>ticketNumber = 5, cost = 3, lotteryDate = ''2024-04-01'', winAmount = 9\<rparr>] = Some (Inr ys)
      \<and> sorted_wrt ticket_less_eq ys)
   \<and> \<not> sorted_wrt ticket_less_eq
       [\<lparr>ticketNumber = 7, cost = 1, lotteryDate = ''2024-05-01'', winAmount = 0\<rparr>,
        \<lparr>ticketNumber = 3, cost = 2, lotteryDate = ''2024-05-01'', winAmount = 0\<rparr>,
        \<lparr>ticketNumber = 5, cost = 3, lotteryDate = ''2024-04-01'', winAmount = 9\<rparr>]"
proof -
  have "\<not> sorted_wrt ticket_less_eq
       [\<lparr>ticketNumber = 7, cost = 1, lotteryDate = ''2024-05-01'', winAmount = 0\<rparr>,
        \<lparr>ticketNumber = 3, cost = 2, lotteryDate = ''2024-05-01'', winAmount = 0\<rparr>,
        \<lparr>ticketNumber = 5, cost = 3, lotteryDate = ''2024-04-01'', winAmount = 9\<rparr>]"
    by (simp add: ticket_less_eq_def ticket_greater_def ticket_less_def)
  then show ?thesis
    using sort_correctness
      [of "[\<lparr>ticketNumber = 7, cost = 1, lotteryDate = ''2024-05-01'', winAmount = 0\<rparr>,
        \<lparr>ticketNumber = 3, cost = 2, lotteryDate = ''2024-05-01'', winAmount = 0\<rparr>,
        \<lparr>ticketNumber = 5, cost = 3, lotteryDate = ''2024-04-01'', winAmount = 9\<rparr>]"]
    by auto
qed

text \<open>
  A vector of \<open>2^31 + 1\<close> tickets, the last one before all the others in the order:
  \<^verbatim>\<open>int n = arr.size()\<close> is \<open>-2147483647\<close>, no pass of selection sort or of bubble sort
  runs, and the vector comes back as it was, which is not sorted. A vector of \<open>2^30\<close>
  tickets, the last one after all the others: heap sort reads outside the vector.
\<close>

theorem sorts_unsorted_beyond_int:
  "selectionSort (replicate (2 ^ 31)
        \<lparr>ticketNumber = 7, cost = 1, lotteryDate = ''2024-05-01'', winAmount = 0\<rparr>
      @ [\<lparr>ticketNumber = 3, cost = 2, lotteryDate = ''2024-05-01'', winAmount = 0\<rparr>])
     = Inr (replicate (2 ^ 31)
        \<lparr>ticketNumber = 7, cost = 1, lotteryDate = ''2024-05-01'', winAmount = 0\<rparr>
      @ [\<lparr>ticketNumber = 3, cost = 2, lotteryDate = ''2024-05-01'', winAmount = 0\<rparr>])
   \<and> bubbleSort (replicate (2 ^ 31)
        \<lparr>ticketNumber = 7, cost = 1, lotteryDate = ''2024-05-01'', winAmount = 0\<rparr>
      @ [\<lparr>ticketNumber = 3, cost = 2, lotteryDate = ''2024-05-01'', winAmount = 0\<rparr>])
     = Inr (replicate (2 ^ 31)
        \<lparr>ticketNumber = 7, cost = 1, lotteryDate = ''2024-05-01'', winAmount = 0\<rparr>
      @ [\<lparr>ticketNumber = 3, cost = 2, lotteryDate = ''2024-05-01'', winAmount = 0\<rparr>])
   \<and> \<not> sorted_wrt ticket_less_eq (replicate (2 ^ 31)
        \<lparr>ticketNumber = 7, cost = 1, lotteryDate = ''2024-05-01'', winAmount = 0\<rparr>
      @ [\<lparr>ticketNumber = 3, cost = 2, lotteryDate = ''2024-05-01'', winAmount = 0\<rparr>])
   \<and> heapSort (replicate (2 ^ 30 - 1)
        \<lparr>ticketNumber = 3, cost = 2, lotteryDate = ''2024-05-01'', winAmount = 0\<rparr>
      @ [\<lparr>ticketNumber = 7, cost = 1, lotteryDate = ''2024-05-01'', winAmount = 0\<rparr>])
     = Some (Inl IndexOutOfBounds)"
proof -
  define t7 where "t7 = \<lparr>ticketNumber = 7, cost = 1, lotteryDate = ''2024-05-01'', winAmount = 0\<rparr>"
  define t3 where "t3 = \<lparr>ticketNumber = 3, cost = 2, lotteryDate = ''2024-05-01'', winAmount = 0\<rparr>"
  have n: "sint (of_nat (length (replicate (2 ^ 31) t7 @ [t3])) - 1 :: 32 word) \<le> 0"
    unfolding length_beyond_int(1) by simp
  have "\<not> ticket_less_eq t7 t3"
    by (simp add: t7_def t3_def ticket_less_eq_def ticket_greater_def ticket_less_def)
  moreover have "t7 \<in> set (replicate (2 ^ 31) t7)"
    by simp
  ultimately have "\<not> sorted_wrt ticket_less_eq (replicate (2 ^ 31) t7 @ [t3])"
    unfolding sorted_wrt_append by (metis list.set_intros(1))
  moreover have "ticket_greater t7 t3"
    by (simp add: t7_def t3_def ticket_greater_def ticket_less_def)
  then have "heapSort (replicate (2 ^ 30 - 1) t3 @ [t7]) = Some (Inl IndexOutOfBounds)"
    by (rule heapSort_beyond_int)
  ultimately show ?thesis
    using sorts_beyond_int(1,2) [OF n] unfolding t7_def t3_def by simp
qed

text \<open>
  C10. Bubble sort is stable. Two tickets are equivalent under the ordering (neither
  \<^verbatim>\<open><\<close> the other) exactly when they have the same sort key (date, amount and ticket
  number; they may differ in cost), and for every key the tickets with that key appear
  in the output of bubble sort in the same order as in its input.
\<close>

theorem bubbleSort_stable:
  "(\<exists>ys. bubbleSort xs = Inr ys
      \<and> (\<forall>key. filter (\<lambda>t. ticket_key t = key) ys = filter (\<lambda>t. ticket_key t = key) xs))
   \<and> ((\<not> ticket_less a b \<and> \<not> ticket_less b a) = (ticket_key a = ticket_key b))"
proof -
  have "ticket_key a = ticket_key b \<Longrightarrow> \<not> ticket_less a b \<and> \<not> ticket_less b a"
    by (simp add: ticket_less_def ticket_key_def)
  then have "(\<not> ticket_less a b \<and> \<not> ticket_less b a) = (ticket_key a = ticket_key b)"
    using ticket_incomparable_key by blast
  then show ?thesis
    using bubbleSort_stable_all [of xs] by blast
qed

section \<open>The three levels of the comparison\<close>

lemma tiebreak_example_sorted:
  fixes d w c1 c2
  defines "t3 \<equiv> \<lparr>ticketNumber = 3, cost = c1, lotteryDate = d, winAmount = w\<rparr>"
  defines "t7 \<equiv> \<lparr>ticketNumber = 7, cost = c2, lotteryDate = d, winAmount = w\<rparr>"
  shows "selectionSort [t7, t3] = Inr [t3, t7]" "bubbleSort [t7, t3] = Inr [t3, t7]"
    "heapSort [t7, t3] = Some (Inr [t3, t7])" "std_sort [t7, t3] = [t3, t7]"
    "selectionSort [t3, t7] = Inr [t3, t7]" "bubbleSort [t3, t7] = Inr [t3, t7]"
    "heapSort [t3, t7] = Some (Inr [t3, t7])" "std_sort [t3, t7] = [t3, t7]"
proof -
  have lt: "ticket_less t3 t7" "\<not> ticket_less t7 t3"
    by (simp_all add: ticket_less_def t3_def t7_def)
  show "selectionSort [t7, t3] = Inr [t3, t7]" "selectionSort [t3, t7] = Inr [t3, t7]"
    using lt by (simp_all add: selectionSort_def selectionSort_outer.simps selectionSort_inner.simps
        at_def swap_def)
  show "bubbleSort [t7, t3] = Inr [t3, t7]" "bubbleSort [t3, t7] = Inr [t3, t7]"
    using lt by (simp_all add: bubbleSort_def bubbleSort_outer.simps bubbleSort_inner.simps
        at_def swap_def ticket_greater_def)
  show "std_sort [t7, t3] = [t3, t7]" "std_sort [t3, t7] = [t3, t7]"
    using lt by simp_all
  have h1: "heapify [t7, t3] 2 0 = Some (Inr [t7, t3])"
    using lt by (subst heapify.simps) (simp add: heapify_pick_def at_def ticket_greater_def Let_def)
  have h2: "heapify [t3, t7] 2 0 = Some (Inr [t7, t3])"
    using lt
    by (subst heapify.simps, subst heapify.simps)
      (simp add: heapify_pick_def at_def swap_def ticket_greater_def Let_def)
  have h3: "heapify [t3, t7] 1 0 = Some (Inr [t3, t7])"
    by (subst heapify.simps) (simp add: heapify_pick_def Let_def)
  show "heapSort [t7, t3] = Some (Inr [t3, t7])" "heapSort [t3, t7] = Some (Inr [t3, t7])"
    by (simp_all add: heapSort_def heapSort_build.simps heapSort_extract.simps h1 h2 h3 swap_def)
qed

text \<open>
  C2. \<^verbatim>\<open>operator<\<close> orders two tickets by \<open>lotteryDate\<close> ascending (the byte-wise
  lexicographic order of the strings); on equal dates by \<open>winAmount\<close> descending, the
  larger amount first; on equal dates and amounts by \<open>ticketNumber\<close> ascending. In
  particular, of two tickets with the same date and amount and the ticket numbers 7 and
  3, the ticket 3 is before the ticket 7, whatever their costs, and each of the four
  algorithms returns them in this order.
\<close>

theorem ticket_less_three_levels:
  "ticket_less a b =
     (lotteryDate a < lotteryDate b \<or>
      (lotteryDate a = lotteryDate b \<and>
        (sint (winAmount a) > sint (winAmount b) \<or>
         (winAmount a = winAmount b \<and> sint (ticketNumber a) < sint (ticketNumber b)))))
   \<and> ticket_less \<lparr>ticketNumber = 3, cost = c1, lotteryDate = d, winAmount = w\<rparr>
                 \<lparr>ticketNumber = 7, cost = c2, lotteryDate = d, winAmount = w\<rparr>
   \<and> \<not> ticket_less \<lparr>ticketNumber = 7, cost = c2, lotteryDate = d, winAmount = w\<rparr>
                   \<lparr>ticketNumber = 3, cost = c1, lotteryDate = d, winAmount = w\<rparr>
   \<and> selectionSort [\<lparr>ticketNumber = 7, cost = c2, lotteryDate = d, winAmount = w\<rparr>,
                     \<lparr>ticketNumber = 3, cost = c1, lotteryDate = d, winAmount = w\<rparr>]
       = Inr [\<lparr>ticketNumber = 3, cost = c1, lotteryDate = d, winAmount = w\<rparr>,
              \<lparr>ticketNumber = 7, cost = c2, lotteryDate = d, winAmount = w\<rparr>]
   \<and> bubbleSort [\<lparr>ticketNumber = 7, cost = c2, lotteryDate = d, winAmount = w\<rparr>,
                  \<lparr>ticketNumber = 3, cost = c1, lotteryDate = d, winAmount = w\<rparr>]
       = Inr [\<lparr>ticketNumber = 3, cost = c1, lotteryDate = d, winAmount = w\<rparr>,
              \<lparr>ticketNumber = 7, cost = c2, lotteryDate = d, winAmount = w\<rparr>]
   \<and> heapSort [\<lparr>ticketNumber = 7, cost = c2, lotteryDate = d, winAmount = w\<rparr>,
                \<lparr>ticketNumber = 3, cost = c1, lotteryDate = d, winAmount = w\<rparr>]
       = Some (Inr [\<lparr>ticketNumber = 3, cost = c1, lotteryDate = d, winAmount = w\<rparr>,
                    \<lparr>ticketNumber = 7, cost = c2, lotteryDate = d, winAmount = w\<rparr>])
   \<and> std_sort [\<lparr>ticketNumber = 7, cost = c2, lotteryDate = d, winAmount = w\<rparr>,
                \<lparr>ticketNumber = 3, cost = c1, lotteryDate = d, winAmount = w\<rparr>]
       = [\<lparr>ticketNumber = 3, cost = c1, lotteryDate = d, winAmount = w\<rparr>,
          \<lparr>ticketNumber = 7, cost = c2, lotteryDate = d, winAmount = w\<rparr>]"
proof -
  have "ticket_less a b =
     (lotteryDate a < lotteryDate b \<or>
      (lotteryDate a = lotteryDate b \<and>
        (sint (winAmount a) > sint (winAmount b) \<or>
         (winAmount a = winAmount b \<and> sint (ticketNumber a) < sint (ticketNumber b)))))"
    by (auto simp: ticket_less_def)
  moreover have "ticket_less \<lparr>ticketNumber = 3, cost = c1, lotteryDate = d, winAmount = w\<rparr>
                 \<lparr>ticketNumber = 7, cost = c2, lotteryDate = d, winAmount = w\<rparr>"
    by (simp add: ticket_less_def)
  moreover have "\<not> ticket_less \<lparr>ticketNumber = 7, cost = c2, lotteryDate = d, winAmount = w\<rparr>
                   \<lparr>ticketNumber = 3, cost = c1, lotteryDate = d, winAmount = w\<rparr>"
    by (simp add: ticket_less_def)
  ultimately show ?thesis
    using tiebreak_example_sorted(1-4) [of c2 d w c1] by blast
qed

section \<open>The costs do not influence the order\<close>

lemma sorted_keys_unique:
  assumes "sorted_wrt ticket_less_eq ys" "sorted_wrt ticket_less_eq zs"
    and "mset (map ticket_key ys) = mset (map ticket_key zs)"
  shows "map ticket_key ys = map ticket_key zs"
  using assms
proof (induction ys arbitrary: zs)
  case Nil
  then show ?case by simp
next
  case (Cons y ys)
  then obtain z zs' where zs: "zs = z # zs'"
    by (cases zs) auto
  have "ticket_key y \<in> set (map ticket_key zs)"
    using Cons.prems(3) by (metis list.set_intros(1) list.simps(9) mset_eq_setD)
  then obtain z1 where z1: "z1 \<in> set zs" "ticket_key z1 = ticket_key y"
    unfolding set_map by (metis imageE)
  have "ticket_key z \<in> set (map ticket_key (y # ys))"
    using Cons.prems(3) zs by (metis list.set_intros(1) list.simps(9) mset_eq_setD)
  then obtain y1 where y1: "y1 \<in> set (y # ys)" "ticket_key y1 = ticket_key z"
    unfolding set_map by (metis imageE)
  have "ticket_less_eq z z1"
    using Cons.prems(2) z1(1) zs by (auto simp: ticket_less_eq_refl)
  then have a: "\<not> ticket_less y z"
    using z1(2) ticket_less_key_cong [of z1 y z z]
    by (simp add: ticket_less_eq_def ticket_greater_def)
  have "ticket_less_eq y y1"
    using Cons.prems(1) y1(1) by (auto simp: ticket_less_eq_refl)
  then have b: "\<not> ticket_less z y"
    using y1(2) ticket_less_key_cong [of y1 z y y]
    by (simp add: ticket_less_eq_def ticket_greater_def)
  have k: "ticket_key y = ticket_key z"
    using a b by (rule ticket_incomparable_key)
  have "map ticket_key ys = map ticket_key zs'"
    using Cons.prems k zs by (intro Cons.IH) simp_all
  then show ?case
    using k zs by simp
qed

lemma sorted_outputs_same_keys:
  assumes "map ticket_key xs = map ticket_key xs'"
    and "mset ys = mset xs" "sorted_wrt ticket_less_eq ys"
    and "mset ys' = mset xs'" "sorted_wrt ticket_less_eq ys'"
  shows "map ticket_key ys = map ticket_key ys'"
proof -
  have "mset (map ticket_key ys) = mset (map ticket_key xs)"
    using assms(2) by (metis mset_map)
  moreover have "mset (map ticket_key ys') = mset (map ticket_key xs')"
    using assms(4) by (metis mset_map)
  ultimately have "mset (map ticket_key ys) = mset (map ticket_key ys')"
    using assms(1) by simp
  with assms(3,5) show ?thesis
    by (rule sorted_keys_unique)
qed

lemma rel_sum_Inr_left:
  assumes "rel_sum (=) same_keys (Inr ys) r"
  shows "\<exists>ys'. r = Inr ys' \<and> map ticket_key ys = map ticket_key ys'"
  using assms by (cases r) (simp_all add: same_keys_def)

text \<open>
  C8. The comparison does not read \<open>cost\<close>: replacing the cost of either ticket by any
  other value leaves the result of \<^verbatim>\<open>operator<\<close>, and of the three operators written
  through it, unchanged, and leaves the sort key unchanged. Hence the order of keys in a
  sorted vector does not depend on the costs: on two vectors with the same sequence of
  keys (they differ in costs only) selection sort, bubble sort and the reference sort
  return vectors with the same sequence of keys, and the two runs of heap sort end in
  the same way, with vectors of the same sequence of keys or, on a vector of \<open>2^30\<close>
  tickets or more, possibly both at the same access outside the vector.
\<close>

theorem ticket_less_ignores_cost:
  "ticket_less (a\<lparr>cost := ca\<rparr>) (b\<lparr>cost := cb\<rparr>) = ticket_less a b
   \<and> ticket_greater (a\<lparr>cost := ca\<rparr>) (b\<lparr>cost := cb\<rparr>) = ticket_greater a b
   \<and> ticket_less_eq (a\<lparr>cost := ca\<rparr>) (b\<lparr>cost := cb\<rparr>) = ticket_less_eq a b
   \<and> ticket_greater_eq (a\<lparr>cost := ca\<rparr>) (b\<lparr>cost := cb\<rparr>) = ticket_greater_eq a b
   \<and> ticket_key (a\<lparr>cost := ca\<rparr>) = ticket_key a
   \<and> (map ticket_key xs = map ticket_key xs' \<longrightarrow>
        (\<exists>ys ys'. selectionSort xs = Inr ys \<and> selectionSort xs' = Inr ys'
            \<and> map ticket_key ys = map ticket_key ys')
        \<and> (\<exists>ys ys'. bubbleSort xs = Inr ys \<and> bubbleSort xs' = Inr ys'
            \<and> map ticket_key ys = map ticket_key ys')
        \<and> (\<exists>r r'. heapSort xs = Some r \<and> heapSort xs' = Some r'
            \<and> rel_sum (=) (\<lambda>ys ys'. map ticket_key ys = map ticket_key ys') r r')
        \<and> (length xs < 2 ^ 30 \<longrightarrow>
             (\<exists>ys ys'. heapSort xs = Some (Inr ys) \<and> heapSort xs' = Some (Inr ys')
                \<and> map ticket_key ys = map ticket_key ys'))
        \<and> map ticket_key (std_sort xs) = map ticket_key (std_sort xs'))"
proof -
  have cmp: "ticket_less (a\<lparr>cost := ca\<rparr>) (b\<lparr>cost := cb\<rparr>) = ticket_less a b
   \<and> ticket_greater (a\<lparr>cost := ca\<rparr>) (b\<lparr>cost := cb\<rparr>) = ticket_greater a b
   \<and> ticket_less_eq (a\<lparr>cost := ca\<rparr>) (b\<lparr>cost := cb\<rparr>) = ticket_less_eq a b
   \<and> ticket_greater_eq (a\<lparr>cost := ca\<rparr>) (b\<lparr>cost := cb\<rparr>) = ticket_greater_eq a b
   \<and> ticket_key (a\<lparr>cost := ca\<rparr>) = ticket_key a"
    by (simp add: ticket_less_def ticket_greater_def ticket_less_eq_def ticket_greater_eq_def
        ticket_key_def)
  have sorts: "(\<exists>ys ys'. selectionSort xs = Inr ys \<and> selectionSort xs' = Inr ys'
            \<and> map ticket_key ys = map ticket_key ys')
        \<and> (\<exists>ys ys'. bubbleSort xs = Inr ys \<and> bubbleSort xs' = Inr ys'
            \<and> map ticket_key ys = map ticket_key ys')
        \<and> (\<exists>r r'. heapSort xs = Some r \<and> heapSort xs' = Some r'
            \<and> rel_sum (=) (\<lambda>ys ys'. map ticket_key ys = map ticket_key ys') r r')
        \<and> (length xs < 2 ^ 30 \<longrightarrow>
             (\<exists>ys ys'. heapSort xs = Some (Inr ys) \<and> heapSort xs' = Some (Inr ys')
                \<and> map ticket_key ys = map ticket_key ys'))
        \<and> map ticket_key (std_sort xs) = map ticket_key (std_sort xs')"
    if k: "map ticket_key xs = map ticket_key xs'"
  proof (intro conjI impI)
    have sk: "same_keys xs xs'"
      using k by (simp add: same_keys_def)
    have fn: "(\<lambda>ys ys'. map ticket_key ys = map ticket_key ys') = same_keys"
      by (intro ext) (simp add: same_keys_def)
    obtain ys where s: "selectionSort xs = Inr ys"
      using selectionSort_returns [of xs] by blast
    then have "rel_sum (=) same_keys (Inr ys) (selectionSort xs')"
      using selectionSort_sim [OF sk] by simp
    then show "\<exists>ys ys'. selectionSort xs = Inr ys \<and> selectionSort xs' = Inr ys'
            \<and> map ticket_key ys = map ticket_key ys'"
      using s rel_sum_Inr_left by blast
    obtain zs where b: "bubbleSort xs = Inr zs"
      using bubbleSort_stable_all [of xs] by blast
    then have "rel_sum (=) same_keys (Inr zs) (bubbleSort xs')"
      using bubbleSort_sim [OF sk] by simp
    then show "\<exists>ys ys'. bubbleSort xs = Inr ys \<and> bubbleSort xs' = Inr ys'
            \<and> map ticket_key ys = map ticket_key ys'"
      using b rel_sum_Inr_left by blast
    obtain r r' where h: "heapSort xs = Some r" "heapSort xs' = Some r'"
      "rel_sum (=) same_keys r r'"
      using heapSort_sim [OF sk] by blast
    then show "\<exists>r r'. heapSort xs = Some r \<and> heapSort xs' = Some r'
            \<and> rel_sum (=) (\<lambda>ys ys'. map ticket_key ys = map ticket_key ys') r r'"
      unfolding fn by blast
    show "\<exists>ys ys'. heapSort xs = Some (Inr ys) \<and> heapSort xs' = Some (Inr ys')
                \<and> map ticket_key ys = map ticket_key ys'"
      if len: "length xs < 2 ^ 30"
    proof -
      obtain ws where "heapSort xs = Some (Inr ws)"
        using heapSort_spec [OF len] by blast
      then have "r = Inr ws"
        using h(1) by simp
      then show ?thesis
        using h rel_sum_Inr_left by blast
    qed
    show "map ticket_key (std_sort xs) = map ticket_key (std_sort xs')"
      using sorted_outputs_same_keys [OF k mset_std_sort sorted_std_sort mset_std_sort sorted_std_sort] .
  qed
  show ?thesis
    using cmp sorts by blast
qed

theorem ticket_less_ignores_cost_witness:
  "map ticket_key
      [\<lparr>ticketNumber = 1, cost = 10, lotteryDate = ''2024-05-01'', winAmount = 50\<rparr>,
       \<lparr>ticketNumber = 2, cost = 20, lotteryDate = ''2024-05-01'', winAmount = 100\<rparr>]
     = map ticket_key
      [\<lparr>ticketNumber = 1, cost = 99, lotteryDate = ''2024-05-01'', winAmount = 50\<rparr>,
       \<lparr>ticketNumber = 2, cost = 0, lotteryDate = ''2024-05-01'', winAmount = 100\<rparr>]
   \<and> (\<exists>ys ys'. bubbleSort
      [\<lparr>ticketNumber = 1, cost = 10, lotteryDate = ''2024-05-01'', winAmount = 50\<rparr>,
       \<lparr>ticketNumber = 2, cost = 20, lotteryDate = ''2024-05-01'', winAmount = 100\<rparr>] = Inr ys
     \<and> bubbleSort
      [\<lparr>ticketNumber = 1, cost = 99, lotteryDate = ''2024-05-01'', winAmount = 50\<rparr>,
       \<lparr>ticketNumber = 2, cost = 0, lotteryDate = ''2024-05-01'', winAmount = 100\<rparr>] = Inr ys'
     \<and> map ticket_key ys = map ticket_key ys')"
proof -
  have k: "map ticket_key
      [\<lparr>ticketNumber = 1, cost = 10, lotteryDate = ''2024-05-01'', winAmount = 50\<rparr>,
       \<lparr>ticketNumber = 2, cost = 20, lotteryDate = ''2024-05-01'', winAmount = 100\<rparr>]
     = map ticket_key
      [\<lparr>ticketNumber = 1, cost = 99, lotteryDate = ''2024-05-01'', winAmount = 50\<rparr>,
       \<lparr>ticketNumber = 2, cost = 0, lotteryDate = ''2024-05-01'', winAmount = 100\<rparr>]"
    by (simp add: ticket_key_def)
  show ?thesis
    using k ticket_less_ignores_cost
      [of _ _ _ _
        "[\<lparr>ticketNumber = 1, cost = 10, lotteryDate = ''2024-05-01'', winAmount = 50\<rparr>,
          \<lparr>ticketNumber = 2, cost = 20, lotteryDate = ''2024-05-01'', winAmount = 100\<rparr>]"
        "[\<lparr>ticketNumber = 1, cost = 99, lotteryDate = ''2024-05-01'', winAmount = 50\<rparr>,
          \<lparr>ticketNumber = 2, cost = 0, lotteryDate = ''2024-05-01'', winAmount = 100\<rparr>]"]
    by blast
qed

section \<open>The passes of bubble sort\<close>

declare bubbleSort_inner_counted.simps [simp del] bubbleSort_outer_counted.simps [simp del]

text \<open>The counters are ghosts: without them the loops return the same vector, or stop in
  the same way.\<close>

lemma bubbleSort_inner_counted_erase:
  "map_sum id fst (bubbleSort_inner_counted arr c n i j) = bubbleSort_inner arr n i j"
proof (induction arr c n i j rule: bubbleSort_inner_counted.induct)
  case (1 arr c n i j)
  show ?case
  proof (cases "sint j < sint (n - i - 1)")
    case False
    then show ?thesis
      by (subst bubbleSort_inner_counted.simps, subst bubbleSort_inner.simps) simp
  next
    case True
    show ?thesis
    proof (cases "at arr (sint j)")
      case (Inl e)
      then show ?thesis
        by (subst bubbleSort_inner_counted.simps, subst bubbleSort_inner.simps) (simp add: True)
    next
      case x: (Inr x)
      show ?thesis
      proof (cases "at arr (sint (j + 1))")
        case (Inl e)
        then show ?thesis
          using x
          by (subst bubbleSort_inner_counted.simps, subst bubbleSort_inner.simps) (simp add: True)
      next
        case y: (Inr y)
        show ?thesis
        proof (cases "ticket_greater x y")
          case no: False
          have "map_sum id fst (bubbleSort_inner_counted arr (c\<lparr>comparisons := comparisons c + 1\<rparr>)
              n i (j + 1)) = bubbleSort_inner arr n i (j + 1)"
            using True x y by (rule "1.IH") (simp_all add: no)
          then show ?thesis
            using x y no
            by (subst bubbleSort_inner_counted.simps, subst bubbleSort_inner.simps) (simp add: True)
        next
          case yes: True
          show ?thesis
          proof (cases "swap arr (sint j) (sint (j + 1))")
            case (Inl e)
            then show ?thesis
              using x y yes
              by (subst bubbleSort_inner_counted.simps, subst bubbleSort_inner.simps)
                (simp add: True)
          next
            case a': (Inr arr')
            have "map_sum id fst (bubbleSort_inner_counted arr'
                (c\<lparr>comparisons := comparisons c + 1, swaps := swaps c + 1\<rparr>) n i (j + 1))
              = bubbleSort_inner arr' n i (j + 1)"
              using True x y by (rule "1.IH") (simp_all add: yes a')
            then show ?thesis
              using x y yes a'
              by (subst bubbleSort_inner_counted.simps, subst bubbleSort_inner.simps)
                (simp add: True)
          qed
        qed
      qed
    qed
  qed
qed

lemma bubbleSort_outer_counted_erase:
  "map_sum id fst (bubbleSort_outer_counted arr c n i) = bubbleSort_outer arr n i"
proof (induction arr c n i rule: bubbleSort_outer_counted.induct)
  case (1 arr c n i)
  show ?case
  proof (cases "sint i < sint (n - 1)")
    case False
    then show ?thesis
      by (subst bubbleSort_outer_counted.simps, subst bubbleSort_outer.simps) simp
  next
    case True
    have e: "map_sum id fst (bubbleSort_inner_counted arr (c\<lparr>passes := passes c + 1\<rparr>) n i 0)
        = bubbleSort_inner arr n i 0"
      by (rule bubbleSort_inner_counted_erase)
    show ?thesis
    proof (cases "bubbleSort_inner_counted arr (c\<lparr>passes := passes c + 1\<rparr>) n i 0")
      case (Inl err)
      then have "bubbleSort_inner arr n i 0 = Inl err"
        using e by simp
      then show ?thesis
        using Inl
        by (subst bubbleSort_outer_counted.simps, subst bubbleSort_outer.simps) (simp add: True)
    next
      case (Inr p)
      obtain arr' c' where p: "p = (arr', c')"
        by (cases p)
      have u: "bubbleSort_inner arr n i 0 = Inr arr'"
        using e Inr p by simp
      have "map_sum id fst (bubbleSort_outer_counted arr' c' n (i + 1)) = bubbleSort_outer arr' n (i + 1)"
        using True Inr p [symmetric] by (rule "1.IH")
      then show ?thesis
        using Inr p u
        by (subst bubbleSort_outer_counted.simps, subst bubbleSort_outer.simps) (simp add: True)
    qed
  qed
qed

text \<open>The loops against the spec's description.\<close>

lemma length_spec_compare_adjacent:
  "length (fst (spec_compare_adjacent j p)) = length (fst p)"
  by (cases p) (simp add: spec_compare_adjacent_def)

lemma length_fold_spec_compare_adjacent:
  "length (fst (fold spec_compare_adjacent js p)) = length (fst p)"
  by (induction js arbitrary: p) (simp_all add: length_spec_compare_adjacent)

lemma bubbleSort_inner_counted_spec:
  fixes n i j :: "32 word"
  assumes "0 \<le> sint j" "sint j \<le> sint (n - i - 1)" "sint (n - i - 1) < int (length arr)"
  shows "bubbleSort_inner_counted arr c n i j =
           Inr (fst (fold spec_compare_adjacent [nat (sint j)..<nat (sint (n - i - 1))] (arr, swaps c)),
                c\<lparr>comparisons := comparisons c + (nat (sint (n - i - 1)) - nat (sint j)),
                  swaps := snd (fold spec_compare_adjacent
                                  [nat (sint j)..<nat (sint (n - i - 1))] (arr, swaps c))\<rparr>)"
  using assms
proof (induction arr c n i j rule: bubbleSort_inner_counted.induct)
  case (1 arr c n i j)
  define M where "M = nat (sint (n - i - 1))"
  show ?case
  proof (cases "sint j < sint (n - i - 1)")
    case False
    then have "sint j = sint (n - i - 1)" using "1.prems" by simp
    then show ?thesis
      by (subst bubbleSort_inner_counted.simps) simp
  next
    case True
    define J where "J = nat (sint j)"
    have j1: "sint (j + 1) = sint j + 1"
      using True by (rule sint_add1)
    have j: "sint j = int J" "sint (j + 1) = int (Suc J)" "nat (sint (j + 1)) = Suc J"
      using "1.prems"(1) by (simp_all add: J_def j1)
    have len: "Suc J < length arr" and JM: "J < M"
      using True "1.prems" by (simp_all add: J_def M_def)
    define g where "g = ticket_greater (arr ! J) (arr ! Suc J)"
    define arr1 where "arr1 = (if g then arr[J := arr ! Suc J, Suc J := arr ! J] else arr)"
    define c1 where "c1 = (if g then c\<lparr>comparisons := comparisons c + 1, swaps := swaps c + 1\<rparr>
                           else c\<lparr>comparisons := comparisons c + 1\<rparr>)"
    have at1: "at arr (sint j) = Inr (arr ! J)" and at2: "at arr (sint (j + 1)) = Inr (arr ! Suc J)"
      using len unfolding j by (simp_all add: at_def)
    have sw: "swap arr (sint j) (sint (j + 1)) = Inr (arr[J := arr ! Suc J, Suc J := arr ! J])"
      using len unfolding j by (simp add: swap_def)
    have step: "(if ticket_greater (arr ! J) (arr ! Suc J)
                 then (case swap arr (sint j) (sint (j + 1)) of Inl e \<Rightarrow> Inl e
                       | Inr arr' \<Rightarrow>
                           Inr (arr', c\<lparr>comparisons := comparisons c + 1, swaps := swaps c + 1\<rparr>))
                 else Inr (arr, c\<lparr>comparisons := comparisons c + 1\<rparr>)) = Inr (arr1, c1)"
      by (simp add: sw arr1_def c1_def g_def)
    have unf: "bubbleSort_inner_counted arr c n i j = bubbleSort_inner_counted arr1 c1 n i (j + 1)"
      by (subst bubbleSort_inner_counted.simps) (simp only: True if_True at1 at2 step sum.case prod.case)
    have len1: "length arr1 = length arr"
      by (simp add: arr1_def)
    have sp: "spec_compare_adjacent J (arr, swaps c) = (arr1, swaps c1)"
      by (simp add: spec_compare_adjacent_def arr1_def c1_def g_def)
    have up: "[J..<M] = J # [Suc J..<M]"
      using JM by (rule upt_conv_Cons)
    have fo: "fold spec_compare_adjacent [J..<M] (arr, swaps c)
        = fold spec_compare_adjacent [Suc J..<M] (arr1, swaps c1)"
      unfolding up by (simp add: sp)
    have "bubbleSort_inner_counted arr1 c1 n i (j + 1) =
           Inr (fst (fold spec_compare_adjacent [nat (sint (j + 1))..<nat (sint (n - i - 1))] (arr1, swaps c1)),
                c1\<lparr>comparisons := comparisons c1 + (nat (sint (n - i - 1)) - nat (sint (j + 1))),
                  swaps := snd (fold spec_compare_adjacent
                                  [nat (sint (j + 1))..<nat (sint (n - i - 1))] (arr1, swaps c1))\<rparr>)"
    proof (rule "1.IH" [OF True at1 at2 step refl])
      show "0 \<le> sint (j + 1)" "sint (j + 1) \<le> sint (n - i - 1)"
        using True "1.prems"(1) by (simp_all add: j1)
      show "sint (n - i - 1) < int (length arr1)"
        using "1.prems"(3) len1 by simp
    qed
    then have r: "bubbleSort_inner_counted arr1 c1 n i (j + 1) =
           Inr (fst (fold spec_compare_adjacent [J..<M] (arr, swaps c)),
                c1\<lparr>comparisons := comparisons c1 + (M - Suc J),
                  swaps := snd (fold spec_compare_adjacent [J..<M] (arr, swaps c))\<rparr>)"
      unfolding j(3) M_def [symmetric] fo .
    have "c1\<lparr>comparisons := comparisons c1 + (M - Suc J),
             swaps := snd (fold spec_compare_adjacent [J..<M] (arr, swaps c))\<rparr>
        = c\<lparr>comparisons := comparisons c + (M - J),
            swaps := snd (fold spec_compare_adjacent [J..<M] (arr, swaps c))\<rparr>"
      using JM by (simp add: c1_def)
    then show ?thesis
      unfolding unf r J_def [symmetric] M_def [symmetric] by simp
  qed
qed

lemma triangle_step: "Suc r + (r * Suc r) div 2 = (Suc r * Suc (Suc r)) div 2"
proof -
  have "Suc r * Suc (Suc r) = r * Suc r + Suc r * 2"
    by simp
  moreover have "(a + b * 2) div 2 = b + a div 2" for a b :: nat
    by simp
  ultimately show ?thesis
    by (simp only:)
qed

lemma bubbleSort_outer_counted_spec:
  fixes n i :: "32 word"
  assumes "0 \<le> sint i" "sint (n - 1) < int (length arr)"
  shows "bubbleSort_outer_counted arr c n i =
           Inr (fst (fold (\<lambda>p. spec_pass (nat (sint (n - 1)) - p))
                       [nat (sint i)..<nat (sint (n - 1))] (arr, swaps c)),
                c\<lparr>passes := passes c + (nat (sint (n - 1)) - nat (sint i)),
                  comparisons := comparisons c
                    + ((nat (sint (n - 1)) - nat (sint i)) * Suc (nat (sint (n - 1)) - nat (sint i))) div 2,
                  swaps := snd (fold (\<lambda>p. spec_pass (nat (sint (n - 1)) - p))
                       [nat (sint i)..<nat (sint (n - 1))] (arr, swaps c))\<rparr>)"
  using assms
proof (induction arr c n i rule: bubbleSort_outer_counted.induct)
  case (1 arr c n i)
  define P where "P = nat (sint (n - 1))"
  define I where "I = nat (sint i)"
  show ?case
  proof (cases "sint i < sint (n - 1)")
    case False
    then have "P \<le> I"
      by (simp add: P_def I_def)
    then show ?thesis
      using False unfolding P_def [symmetric] I_def [symmetric]
      by (subst bubbleSort_outer_counted.simps) simp
  next
    case True
    have i1: "sint (i + 1) = sint i + 1"
      using True by (rule sint_add1)
    have IP: "I < P" and I1: "nat (sint (i + 1)) = Suc I"
      using True "1.prems"(1) by (simp_all add: P_def I_def i1)
    have b: "sint (n - i - 1) = sint (n - 1) - sint i"
      using "1.prems"(1) True by (rule bubbleSort_pass_bound)
    have m: "nat (sint (n - i - 1)) = P - I"
      using "1.prems"(1) True by (simp add: b P_def I_def)
    define c0 where "c0 = c\<lparr>passes := passes c + 1\<rparr>"
    define R0 where "R0 = spec_pass (P - I) (arr, swaps c)"
    define c1 where "c1 = c0\<lparr>comparisons := comparisons c0 + (P - I), swaps := snd R0\<rparr>"
    have "bubbleSort_inner_counted arr c0 n i 0 =
           Inr (fst (fold spec_compare_adjacent
                       [nat (sint (0 :: 32 word))..<nat (sint (n - i - 1))] (arr, swaps c0)),
                c0\<lparr>comparisons := comparisons c0
                      + (nat (sint (n - i - 1)) - nat (sint (0 :: 32 word))),
                  swaps := snd (fold spec_compare_adjacent
                       [nat (sint (0 :: 32 word))..<nat (sint (n - i - 1))] (arr, swaps c0))\<rparr>)"
    proof (rule bubbleSort_inner_counted_spec)
      show "0 \<le> sint (0 :: 32 word)" "sint (0 :: 32 word) \<le> sint (n - i - 1)"
        using True by (simp_all add: b)
      show "sint (n - i - 1) < int (length arr)"
        using "1.prems" by (simp add: b)
    qed
    then have inner: "bubbleSort_inner_counted arr (c\<lparr>passes := passes c + 1\<rparr>) n i 0
        = Inr (fst R0, c1)"
      unfolding m c0_def [symmetric] by (simp add: R0_def c1_def spec_pass_def c0_def)
    have len1: "length (fst R0) = length arr"
      by (simp add: R0_def spec_pass_def length_fold_spec_compare_adjacent)
    have sw1: "swaps c1 = snd R0"
      by (simp add: c1_def)
    have up: "[I..<P] = I # [Suc I..<P]"
      using IP by (rule upt_conv_Cons)
    have fo: "fold (\<lambda>p. spec_pass (P - p)) [I..<P] (arr, swaps c)
        = fold (\<lambda>p. spec_pass (P - p)) [Suc I..<P] (fst R0, swaps c1)"
      unfolding up sw1 by (simp add: R0_def)
    have "bubbleSort_outer_counted (fst R0) c1 n (i + 1) =
           Inr (fst (fold (\<lambda>p. spec_pass (nat (sint (n - 1)) - p))
                       [nat (sint (i + 1))..<nat (sint (n - 1))] (fst R0, swaps c1)),
                c1\<lparr>passes := passes c1 + (nat (sint (n - 1)) - nat (sint (i + 1))),
                  comparisons := comparisons c1
                    + ((nat (sint (n - 1)) - nat (sint (i + 1)))
                       * Suc (nat (sint (n - 1)) - nat (sint (i + 1)))) div 2,
                  swaps := snd (fold (\<lambda>p. spec_pass (nat (sint (n - 1)) - p))
                       [nat (sint (i + 1))..<nat (sint (n - 1))] (fst R0, swaps c1))\<rparr>)"
    proof (rule "1.IH" [OF True inner refl])
      show "0 \<le> sint (i + 1)"
        using "1.prems"(1) by (simp add: i1)
      show "sint (n - 1) < int (length (fst R0))"
        using "1.prems"(2) len1 by simp
    qed
    then have r: "bubbleSort_outer_counted (fst R0) c1 n (i + 1) =
           Inr (fst (fold (\<lambda>p. spec_pass (P - p)) [I..<P] (arr, swaps c)),
                c1\<lparr>passes := passes c1 + (P - Suc I),
                  comparisons := comparisons c1 + ((P - Suc I) * Suc (P - Suc I)) div 2,
                  swaps := snd (fold (\<lambda>p. spec_pass (P - p)) [I..<P] (arr, swaps c))\<rparr>)"
      unfolding I1 P_def [symmetric] fo .
    have unf: "bubbleSort_outer_counted arr c n i = bubbleSort_outer_counted (fst R0) c1 n (i + 1)"
      by (subst bubbleSort_outer_counted.simps) (simp only: True if_True inner sum.case prod.case)
    define S where "S = snd (fold (\<lambda>p. spec_pass (P - p)) [I..<P] (arr, swaps c))"
    define TE where "TE = ((P - Suc I) * Suc (P - Suc I)) div 2"
    define TD where "TD = ((P - I) * Suc (P - I)) div 2"
    have d: "P - I = Suc (P - Suc I)"
      using IP by simp
    have tri: "P - I + TE = TD"
      unfolding TE_def TD_def d by (rule triangle_step)
    have "c1\<lparr>passes := passes c1 + (P - Suc I), comparisons := comparisons c1 + TE, swaps := S\<rparr>
        = c\<lparr>passes := passes c + (P - I), comparisons := comparisons c + TD, swaps := S\<rparr>"
      using IP tri by (simp add: c1_def c0_def)
    note req = this [unfolded TE_def TD_def]
    show ?thesis
      unfolding unf r P_def [symmetric] I_def [symmetric] S_def [symmetric] req ..
  qed
qed

lemma spec_compare_adjacent_sorted:
  assumes "sorted_wrt ticket_less_eq arr" "Suc j < length arr"
  shows "spec_compare_adjacent j (arr, s) = (arr, s)"
proof -
  have "ticket_less_eq (arr ! j) (arr ! Suc j)"
    using assms by (simp add: sorted_wrt_iff_nth_less)
  then show ?thesis
    by (simp add: spec_compare_adjacent_def ticket_less_eq_def)
qed

lemma spec_pass_sorted:
  assumes "sorted_wrt ticket_less_eq arr" "m < length arr"
  shows "spec_pass m (arr, s) = (arr, s)"
  using assms(2)
proof (induction m)
  case 0
  show ?case by (simp add: spec_pass_def)
next
  case (Suc m)
  then have "spec_pass m (arr, s) = (arr, s)"
    by simp
  then show ?case
    using spec_compare_adjacent_sorted [OF assms(1), of m s] Suc.prems
    by (simp add: spec_pass_def)
qed

lemma spec_bubble_sort_sorted:
  assumes "sorted_wrt ticket_less_eq arr"
  shows "spec_bubble_sort arr = (arr, 0)"
proof -
  have "fold (\<lambda>p. spec_pass (length arr - 1 - p)) ps (arr, s) = (arr, s)"
    if "arr \<noteq> []" for ps s
  proof (induction ps)
    case Nil
    show ?case by simp
  next
    case (Cons p ps)
    have "length arr - 1 - p < length arr"
      using that by (cases arr) simp_all
    then show ?case
      using Cons spec_pass_sorted [OF assms] by simp
  qed
  then show ?thesis
    by (cases "arr = []") (simp_all add: spec_bubble_sort_def)
qed

lemma bubbleSort_counted_spec:
  assumes "length arr < 2 ^ 31"
  shows "bubbleSort_counted arr =
           Inr (fst (spec_bubble_sort arr),
                \<lparr>passes = length arr - 1,
                 comparisons = ((length arr - 1) * length arr) div 2,
                 swaps = snd (spec_bubble_sort arr)\<rparr>)"
proof -
  define n :: "32 word" where "n = of_nat (length arr)"
  have P: "nat (sint (n - 1)) = length arr - 1"
  proof (cases "length arr")
    case 0
    then show ?thesis by (simp add: n_def)
  next
    case (Suc K)
    then have "n - 1 = of_nat K" "K < 2 ^ 31"
      using assms by (simp_all add: n_def)
    then show ?thesis
      using Suc by (simp add: sint_of_nat_32)
  qed
  define K where "K = length arr - 1"
  define T where "T = (K * Suc K) div 2"
  have T: "T = ((length arr - 1) * length arr) div 2"
    unfolding T_def K_def by (cases "length arr") simp_all
  define c0 where "c0 = \<lparr>passes = 0 :: nat, comparisons = 0 :: nat, swaps = 0 :: nat\<rparr>"
  have z: "nat (sint (0 :: 32 word)) = 0" "swaps c0 = 0" "passes c0 = 0" "comparisons c0 = 0"
    by (simp_all add: c0_def)
  have "bubbleSort_outer_counted arr c0 n 0 =
           Inr (fst (fold (\<lambda>p. spec_pass (nat (sint (n - 1)) - p))
                       [nat (sint (0 :: 32 word))..<nat (sint (n - 1))] (arr, swaps c0)),
                c0\<lparr>passes := passes c0 + (nat (sint (n - 1)) - nat (sint (0 :: 32 word))),
                  comparisons := comparisons c0
                    + ((nat (sint (n - 1)) - nat (sint (0 :: 32 word)))
                       * Suc (nat (sint (n - 1)) - nat (sint (0 :: 32 word)))) div 2,
                  swaps := snd (fold (\<lambda>p. spec_pass (nat (sint (n - 1)) - p))
                       [nat (sint (0 :: 32 word))..<nat (sint (n - 1))] (arr, swaps c0))\<rparr>)"
  proof (rule bubbleSort_outer_counted_spec)
    show "0 \<le> sint (0 :: 32 word)" by simp
    show "sint (n - 1) < int (length arr)"
      unfolding n_def by (rule sint_of_nat_pred)
  qed
  then have "bubbleSort_outer_counted arr c0 n 0 =
           Inr (fst (spec_bubble_sort arr),
                c0\<lparr>passes := K, comparisons := T, swaps := snd (spec_bubble_sort arr)\<rparr>)"
    unfolding P z K_def [symmetric] spec_bubble_sort_def diff_zero add_0 T_def .
  then show ?thesis
    unfolding T by (simp add: bubbleSort_counted_def n_def [symmetric] c0_def K_def)
qed

text \<open>
  C5 (amended). Bubble sort on a vector of \<open>N < 2^31\<close> tickets runs its outer loop exactly
  \<open>N - 1\<close> times (not at all on the empty vector) and evaluates exactly \<open>(N - 1) N / 2\<close>
  comparisons \<^verbatim>\<open>arr[j] > arr[j + 1]\<close>, whatever the vector holds: no pass is skipped when
  nothing was swapped. Its passes are the passes of the spec's description: every
  comparison is of an adjacent pair and swaps the pair exactly when the left ticket is
  strictly greater than the right, so that the vector returned and the number of swaps
  made are those of \<open>spec_bubble_sort\<close>. On an already sorted vector the same passes
  and comparisons are run, no swap is made and the vector is returned unchanged. On
  two tickets \<open>a, b\<close> the single comparison gives \<open>[b, a]\<close> and one swap when \<open>a > b\<close>, and
  \<open>[a, b]\<close> and no swap otherwise. On every vector the loops with counters return the
  vector the loops without them return.
\<close>

theorem bubbleSort_fixed_passes:
  "(length arr < 2 ^ 31 \<longrightarrow>
      bubbleSort_counted arr =
        Inr (fst (spec_bubble_sort arr),
             \<lparr>passes = length arr - 1,
              comparisons = ((length arr - 1) * length arr) div 2,
              swaps = snd (spec_bubble_sort arr)\<rparr>)
      \<and> bubbleSort arr = Inr (fst (spec_bubble_sort arr))
      \<and> (sorted_wrt ticket_less_eq arr \<longrightarrow> spec_bubble_sort arr = (arr, 0)))
   \<and> map_sum id fst (bubbleSort_counted arr) = bubbleSort arr
   \<and> bubbleSort_counted [a, b] =
        Inr (if ticket_greater a b then [b, a] else [a, b],
             \<lparr>passes = 1, comparisons = 1, swaps = (if ticket_greater a b then 1 else 0)\<rparr>)"
proof -
  have erase: "map_sum id fst (bubbleSort_counted arr) = bubbleSort arr"
    by (simp add: bubbleSort_counted_def bubbleSort_def bubbleSort_outer_counted_erase)
  have general: "bubbleSort_counted arr =
        Inr (fst (spec_bubble_sort arr),
             \<lparr>passes = length arr - 1,
              comparisons = ((length arr - 1) * length arr) div 2,
              swaps = snd (spec_bubble_sort arr)\<rparr>)
      \<and> bubbleSort arr = Inr (fst (spec_bubble_sort arr))
      \<and> (sorted_wrt ticket_less_eq arr \<longrightarrow> spec_bubble_sort arr = (arr, 0))"
    if len: "length arr < 2 ^ 31"
    using bubbleSort_counted_spec [OF len] erase spec_bubble_sort_sorted [of arr]
    by (metis fst_conv map_sum.simps(2))
  have two: "bubbleSort_counted [a, b] =
        Inr (if ticket_greater a b then [b, a] else [a, b],
             \<lparr>passes = 1, comparisons = 1, swaps = (if ticket_greater a b then 1 else 0)\<rparr>)"
    by (simp add: bubbleSort_counted_def bubbleSort_outer_counted.simps
        bubbleSort_inner_counted.simps at_def swap_def)
  show ?thesis
    using general erase two by blast
qed

theorem bubbleSort_fixed_passes_witness:
  "bubbleSort_counted
       [\<lparr>ticketNumber = 1, cost = 10, lotteryDate = ''2024-05-01'', winAmount = 50\<rparr>,
        \<lparr>ticketNumber = 2, cost = 20, lotteryDate = ''2024-05-01'', winAmount = 100\<rparr>,
        \<lparr>ticketNumber = 3, cost = 5, lotteryDate = ''2024-04-01'', winAmount = 0\<rparr>]
     = Inr ([\<lparr>ticketNumber = 3, cost = 5, lotteryDate = ''2024-04-01'', winAmount = 0\<rparr>,
             \<lparr>ticketNumber = 2, cost = 20, lotteryDate = ''2024-05-01'', winAmount = 100\<rparr>,
             \<lparr>ticketNumber = 1, cost = 10, lotteryDate = ''2024-05-01'', winAmount = 50\<rparr>],
            \<lparr>passes = 2, comparisons = 3, swaps = 3\<rparr>)
   \<and> sorted_wrt ticket_less_eq
       [\<lparr>ticketNumber = 3, cost = 5, lotteryDate = ''2024-04-01'', winAmount = 0\<rparr>,
        \<lparr>ticketNumber = 2, cost = 20, lotteryDate = ''2024-05-01'', winAmount = 100\<rparr>,
        \<lparr>ticketNumber = 1, cost = 10, lotteryDate = ''2024-05-01'', winAmount = 50\<rparr>]
   \<and> bubbleSort_counted
       [\<lparr>ticketNumber = 3, cost = 5, lotteryDate = ''2024-04-01'', winAmount = 0\<rparr>,
        \<lparr>ticketNumber = 2, cost = 20, lotteryDate = ''2024-05-01'', winAmount = 100\<rparr>,
        \<lparr>ticketNumber = 1, cost = 10, lotteryDate = ''2024-05-01'', winAmount = 50\<rparr>]
     = Inr ([\<lparr>ticketNumber = 3, cost = 5, lotteryDate = ''2024-04-01'', winAmount = 0\<rparr>,
             \<lparr>ticketNumber = 2, cost = 20, lotteryDate = ''2024-05-01'', winAmount = 100\<rparr>,
             \<lparr>ticketNumber = 1, cost = 10, lotteryDate = ''2024-05-01'', winAmount = 50\<rparr>],
            \<lparr>passes = 2, comparisons = 3, swaps = 0\<rparr>)"
proof -
  define a where "a = \<lparr>ticketNumber = 3, cost = 5, lotteryDate = ''2024-04-01'', winAmount = 0\<rparr>"
  define b where "b = \<lparr>ticketNumber = 2, cost = 20, lotteryDate = ''2024-05-01'', winAmount = 100\<rparr>"
  define c where "c = \<lparr>ticketNumber = 1, cost = 10, lotteryDate = ''2024-05-01'', winAmount = 50\<rparr>"
  have gt: "ticket_greater c b" "ticket_greater c a" "ticket_greater b a"
    "\<not> ticket_greater a b" "\<not> ticket_greater b c" "\<not> ticket_greater a c"
    by (simp_all add: a_def b_def c_def ticket_greater_def ticket_less_def)
  have s: "sorted_wrt ticket_less_eq [a, b, c]"
    using gt by (simp add: ticket_less_eq_def)
  have up: "[0..<2] = [0, 1]" "[0..<1] = [0]"
    by (simp_all add: upt_rec)
  have spec: "spec_bubble_sort [c, b, a] = ([a, b, c], 3)"
    using gt by (simp add: spec_bubble_sort_def spec_pass_def spec_compare_adjacent_def up)
  have "bubbleSort_counted [c, b, a] = Inr ([a, b, c], \<lparr>passes = 2, comparisons = 3, swaps = 3\<rparr>)"
    using bubbleSort_fixed_passes [of "[c, b, a]", THEN conjunct1] by (simp add: spec)
  moreover have "bubbleSort_counted [a, b, c] = Inr ([a, b, c], \<lparr>passes = 2, comparisons = 3, swaps = 0\<rparr>)"
    using s bubbleSort_fixed_passes [of "[a, b, c]", THEN conjunct1] by simp
  ultimately show ?thesis
    using s unfolding a_def b_def c_def by simp
qed

text \<open>
  On a vector of \<open>2^31 + 1\<close> tickets \<^verbatim>\<open>int n = arr.size()\<close> is negative and bubble sort runs
  no pass and no comparison, where \<open>N - 1\<close> is \<open>2^31\<close>; the vector, which is not sorted, is
  returned as it was.
\<close>

theorem bubbleSort_no_pass_beyond_int:
  "bubbleSort_counted (replicate (2 ^ 31)
        \<lparr>ticketNumber = 7, cost = 1, lotteryDate = ''2024-05-01'', winAmount = 0\<rparr>
      @ [\<lparr>ticketNumber = 3, cost = 2, lotteryDate = ''2024-05-01'', winAmount = 0\<rparr>])
     = Inr (replicate (2 ^ 31)
        \<lparr>ticketNumber = 7, cost = 1, lotteryDate = ''2024-05-01'', winAmount = 0\<rparr>
      @ [\<lparr>ticketNumber = 3, cost = 2, lotteryDate = ''2024-05-01'', winAmount = 0\<rparr>],
        \<lparr>passes = 0, comparisons = 0, swaps = 0\<rparr>)
   \<and> length (replicate (2 ^ 31)
        \<lparr>ticketNumber = 7, cost = 1, lotteryDate = ''2024-05-01'', winAmount = 0\<rparr>
      @ [\<lparr>ticketNumber = 3, cost = 2, lotteryDate = ''2024-05-01'', winAmount = 0\<rparr>]) - 1 = 2 ^ 31
   \<and> ticket_greater \<lparr>ticketNumber = 7, cost = 1, lotteryDate = ''2024-05-01'', winAmount = 0\<rparr>
        \<lparr>ticketNumber = 3, cost = 2, lotteryDate = ''2024-05-01'', winAmount = 0\<rparr>"
proof -
  define t7 where "t7 = \<lparr>ticketNumber = 7, cost = 1, lotteryDate = ''2024-05-01'', winAmount = 0\<rparr>"
  define t3 where "t3 = \<lparr>ticketNumber = 3, cost = 2, lotteryDate = ''2024-05-01'', winAmount = 0\<rparr>"
  have n: "sint (of_nat (length (replicate (2 ^ 31) t7 @ [t3])) - 1 :: 32 word) \<le> 0"
    unfolding length_beyond_int(1) by simp
  have "ticket_greater t7 t3"
    by (simp add: t7_def t3_def ticket_greater_def ticket_less_def)
  moreover have "length (replicate (2 ^ 31) t7 @ [t3]) - 1 = 2 ^ 31"
    by simp
  ultimately show ?thesis
    using sorts_beyond_int(3) [OF n] unfolding t7_def t3_def by simp
qed

section \<open>Termination of heapify and heap sort\<close>

lemma heapify_in_range:
  fixes arr :: "LotteryTicket list" and n i :: nat
  assumes "n \<le> length arr" "n < 2 ^ 30" "i < 2 ^ 30 - 1"
  shows "\<exists>arr'. heapify arr (of_nat n) (of_nat i) = Some (Inr arr') \<and> length arr' = length arr
           \<and> mset arr' = mset arr"
  using assms
proof (induction "n - i" arbitrary: arr i rule: less_induct)
  case less
  define lg1 where "lg1 = (if 2 * i + 1 < n \<and> ticket_greater (arr ! (2 * i + 1)) (arr ! i) then 2 * i + 1 else i)"
  define lg where "lg = (if 2 * i + 2 < n \<and> ticket_greater (arr ! (2 * i + 2)) (arr ! lg1) then 2 * i + 2 else lg1)"
  have unf: "heapify arr (of_nat n) (of_nat i) =
           (if lg \<noteq> i then heapify (arr[i := arr ! lg, lg := arr ! i]) (of_nat n) (of_nat lg)
            else Some (Inr arr))"
    unfolding lg_def lg1_def by (rule heapify_unfold_nat [OF less.prems])
  show ?case
  proof (cases "lg = i")
    case True
    then show ?thesis by (simp add: unf)
  next
    case False
    have ch: "(lg = 2 * i + 1 \<or> lg = 2 * i + 2) \<and> lg < n \<and> ticket_less (arr ! i) (arr ! lg)"
      using False unfolding lg_def lg1_def by (rule heapify_choice(2))
    define arr1 where "arr1 = arr[i := arr ! lg, lg := arr ! i]"
    have b: "lg < length arr" "i < length arr"
      using ch less.prems(1) by auto
    have ms1: "mset arr1 = mset arr" "length arr1 = length arr"
      using mset_swap [of lg arr i] b by (simp_all add: arr1_def)
    have "\<exists>arr'. heapify arr1 (of_nat n) (of_nat lg) = Some (Inr arr') \<and> length arr' = length arr1
           \<and> mset arr' = mset arr1"
      using ch less.prems ms1(2) by (intro less.hyps) auto
    then show ?thesis
      using False ms1 by (simp add: unf arr1_def [symmetric])
  qed
qed

lemma heapify_within:
  fixes n i :: "32 word"
  assumes "0 \<le> sint i" "sint i < 2 ^ 30 - 1" "sint n < 2 ^ 30" "sint n \<le> int (length arr)"
  shows "\<exists>arr'. heapify arr n i = Some (Inr arr') \<and> length arr' = length arr \<and> mset arr' = mset arr"
proof (cases "0 \<le> sint n")
  case True
  have "\<exists>arr'. heapify arr (of_nat (nat (sint n))) (of_nat (nat (sint i))) = Some (Inr arr')
      \<and> length arr' = length arr \<and> mset arr' = mset arr"
    using assms True by (intro heapify_in_range) simp_all
  then show ?thesis
    using assms(1) True by simp
next
  case False
  have "0 \<le> sint (2 * i + 1)" "0 \<le> sint (2 * i + 2)"
    using assms(1,2) by (simp_all add: sint_double)
  then have "heapify_pick arr n (2 * i + 1) i = Inr i" "heapify_pick arr n (2 * i + 2) i = Inr i"
    using False by (simp_all add: heapify_pick_def)
  then have "heapify arr n i = Some (Inr arr)"
    by (subst heapify.simps) (simp add: Let_def)
  then show ?thesis by simp
qed

text \<open>
  C9 (amended). \<^verbatim>\<open>heapify\<close> returns within the vector, with a permutation of it, for every
  vector, every heap size \<open>n\<close> that is at most the length of the vector and below \<open>2^30\<close>,
  and every root index \<open>0 \<le> i < 2^30 - 1\<close>: there neither \<open>2i + 1\<close> nor \<open>2i + 2\<close> overflows.
  A recursive call is made only after a swap with the child \<open>2i + 1\<close> or \<open>2i + 2\<close>; it is
  the call at that child, which is above \<open>i\<close> and below \<open>n\<close>. \<^verbatim>\<open>heapSort\<close> returns a vector on every input of fewer
  than \<open>2^30\<close> tickets. For all other arguments the recursion still ends, but possibly at
  an access outside the vector's range, where the behaviour of the source is undefined:
  the result is never \<open>None\<close>.
\<close>

theorem heapify_terminates:
  "(0 \<le> sint i \<and> sint i < 2 ^ 30 - 1 \<and> sint n < 2 ^ 30 \<and> sint n \<le> int (length arr) \<longrightarrow>
        (\<exists>arr'. heapify arr n i = Some (Inr arr') \<and> length arr' = length arr
            \<and> mset arr' = mset arr))
   \<and> (heapify_pick arr n (2 * i + 1) i = Inr l \<and> heapify_pick arr n (2 * i + 2) l = Inr l'
        \<and> l' \<noteq> i \<and> swap arr (sint i) (sint l') = Inr arr1 \<longrightarrow>
        heapify arr n i = heapify arr1 n l'
        \<and> (l' = 2 * i + 1 \<or> l' = 2 * i + 2) \<and> sint i < sint l' \<and> sint l' < sint n)
   \<and> (length arr < 2 ^ 30 \<longrightarrow> (\<exists>arr'. heapSort arr = Some (Inr arr')))
   \<and> (\<exists>r. heapify arr n i = Some r)
   \<and> (\<exists>r. heapSort arr = Some r)"
proof -
  have "heapify arr n i = heapify arr1 n l'
      \<and> (l' = 2 * i + 1 \<or> l' = 2 * i + 2) \<and> sint i < sint l' \<and> sint l' < sint n"
    if p: "heapify_pick arr n (2 * i + 1) i = Inr l" "heapify_pick arr n (2 * i + 2) l = Inr l'"
      "l' \<noteq> i" and sw: "swap arr (sint i) (sint l') = Inr arr1"
  proof -
    have "0 \<le> sint i"
      using sw by (rule swap_Inr_nonneg)
    then have "sint i < sint l' \<and> sint l' < sint n"
      using p by (rule heapify_child_above)
    moreover have "l' = 2 * i + 1 \<or> l' = 2 * i + 2"
      using heapify_pick_cases [OF p(1)] heapify_pick_cases [OF p(2)] p(3) by auto
    moreover have "heapify arr n i = heapify arr1 n l'"
      by (subst heapify.simps) (simp add: Let_def p sw)
    ultimately show ?thesis
      by blast
  qed
  moreover have "\<exists>r. heapSort arr = Some r"
    using heapSort_sim [OF same_keys_refl, of arr] by blast
  ultimately show ?thesis
    using heapify_within [of i n arr] heapify_returns [of arr n i] heapSort_spec [of arr]
    by blast
qed

theorem heapify_terminates_witness:
  "heapify
      [\<lparr>ticketNumber = 1, cost = 10, lotteryDate = ''2024-01-01'', winAmount = 50\<rparr>,
       \<lparr>ticketNumber = 3, cost = 20, lotteryDate = ''2024-03-01'', winAmount = 100\<rparr>,
       \<lparr>ticketNumber = 2, cost = 5, lotteryDate = ''2024-02-01'', winAmount = 0\<rparr>,
       \<lparr>ticketNumber = 4, cost = 7, lotteryDate = ''2024-04-01'', winAmount = 0\<rparr>] 4 0
     = Some (Inr
      [\<lparr>ticketNumber = 3, cost = 20, lotteryDate = ''2024-03-01'', winAmount = 100\<rparr>,
       \<lparr>ticketNumber = 4, cost = 7, lotteryDate = ''2024-04-01'', winAmount = 0\<rparr>,
       \<lparr>ticketNumber = 2, cost = 5, lotteryDate = ''2024-02-01'', winAmount = 0\<rparr>,
       \<lparr>ticketNumber = 1, cost = 10, lotteryDate = ''2024-01-01'', winAmount = 50\<rparr>])
   \<and> (\<exists>arr'. heapify
      [\<lparr>ticketNumber = 1, cost = 10, lotteryDate = ''2024-01-01'', winAmount = 50\<rparr>,
       \<lparr>ticketNumber = 3, cost = 20, lotteryDate = ''2024-03-01'', winAmount = 100\<rparr>,
       \<lparr>ticketNumber = 2, cost = 5, lotteryDate = ''2024-02-01'', winAmount = 0\<rparr>,
       \<lparr>ticketNumber = 4, cost = 7, lotteryDate = ''2024-04-01'', winAmount = 0\<rparr>] 4 0
         = Some (Inr arr')
       \<and> length arr' = 4
       \<and> mset arr' = mset
      [\<lparr>ticketNumber = 1, cost = 10, lotteryDate = ''2024-01-01'', winAmount = 50\<rparr>,
       \<lparr>ticketNumber = 3, cost = 20, lotteryDate = ''2024-03-01'', winAmount = 100\<rparr>,
       \<lparr>ticketNumber = 2, cost = 5, lotteryDate = ''2024-02-01'', winAmount = 0\<rparr>,
       \<lparr>ticketNumber = 4, cost = 7, lotteryDate = ''2024-04-01'', winAmount = 0\<rparr>])
   \<and> heapify_pick
      [\<lparr>ticketNumber = 1, cost = 10, lotteryDate = ''2024-01-01'', winAmount = 50\<rparr>,
       \<lparr>ticketNumber = 3, cost = 20, lotteryDate = ''2024-03-01'', winAmount = 100\<rparr>,
       \<lparr>ticketNumber = 2, cost = 5, lotteryDate = ''2024-02-01'', winAmount = 0\<rparr>,
       \<lparr>ticketNumber = 4, cost = 7, lotteryDate = ''2024-04-01'', winAmount = 0\<rparr>] 4 2 1 = Inr 1
   \<and> sint (0 :: 32 word) < sint (1 :: 32 word) \<and> sint (1 :: 32 word) < sint (4 :: 32 word)"
proof -
  define x0 where "x0 = \<lparr>ticketNumber = 1, cost = 10, lotteryDate = ''2024-01-01'', winAmount = 50\<rparr>"
  define x1 where "x1 = \<lparr>ticketNumber = 3, cost = 20, lotteryDate = ''2024-03-01'', winAmount = 100\<rparr>"
  define x2 where "x2 = \<lparr>ticketNumber = 2, cost = 5, lotteryDate = ''2024-02-01'', winAmount = 0\<rparr>"
  define x3 where "x3 = \<lparr>ticketNumber = 4, cost = 7, lotteryDate = ''2024-04-01'', winAmount = 0\<rparr>"
  have gt: "ticket_greater x1 x0" "\<not> ticket_greater x2 x1" "ticket_greater x3 x0"
    by (simp_all add: x0_def x1_def x2_def x3_def ticket_greater_def ticket_less_def)
  have p1: "heapify_pick [x0, x1, x2, x3] 4 1 0 = Inr 1"
    and p2: "heapify_pick [x0, x1, x2, x3] 4 2 1 = Inr 1"
    using gt by (simp_all add: heapify_pick_def at_def)
  have h3: "heapify [x1, x3, x2, x0] 4 3 = Some (Inr [x1, x3, x2, x0])"
    by (subst heapify.simps) (simp add: heapify_pick_def Let_def)
  have h2: "heapify [x1, x0, x2, x3] 4 1 = Some (Inr [x1, x3, x2, x0])"
    using gt by (subst heapify.simps) (simp add: heapify_pick_def at_def swap_def Let_def h3)
  have h1: "heapify [x0, x1, x2, x3] 4 0 = Some (Inr [x1, x3, x2, x0])"
    by (subst heapify.simps) (simp add: p1 p2 swap_def Let_def h2)
  have sw: "swap [x0, x1, x2, x3] (sint (0 :: 32 word)) (sint (1 :: 32 word)) = Inr [x1, x0, x2, x3]"
    by (simp add: swap_def)
  have "sint (0 :: 32 word) < sint (1 :: 32 word) \<and> sint (1 :: 32 word) < sint (4 :: 32 word)"
    using p1 p2 sw
      heapify_terminates [of 0 4 "[x0, x1, x2, x3]" 1 1 "[x1, x0, x2, x3]",
        THEN conjunct2, THEN conjunct1]
    by simp
  moreover have "\<exists>arr'. heapify [x0, x1, x2, x3] 4 0 = Some (Inr arr') \<and> length arr' = 4
      \<and> mset arr' = mset [x0, x1, x2, x3]"
    using heapify_terminates [of 0 4 "[x0, x1, x2, x3]", THEN conjunct1]
    by (simp add: eval_nat_numeral)
  ultimately show ?thesis
    using h1 p2 unfolding x0_def x1_def x2_def x3_def by simp
qed

text \<open>
  On a vector of three tickets with heap size \<open>3\<close> and root index \<open>2^30\<close>, \<^verbatim>\<open>2 * i + 1\<close>
  overflows to \<open>-2147483647\<close>, which is below \<open>n\<close>, and \<^verbatim>\<open>arr[left]\<close> is read outside the
  vector. So it is with the root index \<open>-1\<close>, where \<^verbatim>\<open>left\<close> is \<open>-1\<close>; and \<^verbatim>\<open>heapSort\<close> on
  \<open>2^30\<close> tickets, the last one after all the others, calls \<^verbatim>\<open>heapify\<close> at \<open>2^30 - 1\<close>,
  where \<^verbatim>\<open>2 * i + 2\<close> overflows.
\<close>

theorem heapify_leaves_vector:
  "heapify
      [\<lparr>ticketNumber = 1, cost = 10, lotteryDate = ''2024-01-01'', winAmount = 50\<rparr>,
       \<lparr>ticketNumber = 3, cost = 20, lotteryDate = ''2024-03-01'', winAmount = 100\<rparr>,
       \<lparr>ticketNumber = 2, cost = 5, lotteryDate = ''2024-02-01'', winAmount = 0\<rparr>] 3 (2 ^ 30)
     = Some (Inl IndexOutOfBounds)
   \<and> sint (2 * 2 ^ 30 + 1 :: 32 word) = - 2147483647
   \<and> heapify
      [\<lparr>ticketNumber = 1, cost = 10, lotteryDate = ''2024-01-01'', winAmount = 50\<rparr>,
       \<lparr>ticketNumber = 3, cost = 20, lotteryDate = ''2024-03-01'', winAmount = 100\<rparr>,
       \<lparr>ticketNumber = 2, cost = 5, lotteryDate = ''2024-02-01'', winAmount = 0\<rparr>] 3 (- 1)
     = Some (Inl IndexOutOfBounds)
   \<and> heapSort (replicate (2 ^ 30 - 1)
        \<lparr>ticketNumber = 1, cost = 10, lotteryDate = ''2024-01-01'', winAmount = 50\<rparr>
      @ [\<lparr>ticketNumber = 3, cost = 20, lotteryDate = ''2024-03-01'', winAmount = 100\<rparr>])
     = Some (Inl IndexOutOfBounds)"
proof -
  have "ticket_greater \<lparr>ticketNumber = 3, cost = 20, lotteryDate = ''2024-03-01'', winAmount = 100\<rparr>
      \<lparr>ticketNumber = 1, cost = 10, lotteryDate = ''2024-01-01'', winAmount = 50\<rparr>"
    by (simp add: ticket_greater_def ticket_less_def)
  then have "heapSort (replicate (2 ^ 30 - 1)
        \<lparr>ticketNumber = 1, cost = 10, lotteryDate = ''2024-01-01'', winAmount = 50\<rparr>
      @ [\<lparr>ticketNumber = 3, cost = 20, lotteryDate = ''2024-03-01'', winAmount = 100\<rparr>])
     = Some (Inl IndexOutOfBounds)"
    by (rule heapSort_beyond_int)
  moreover have "heapify
      [\<lparr>ticketNumber = 1, cost = 10, lotteryDate = ''2024-01-01'', winAmount = 50\<rparr>,
       \<lparr>ticketNumber = 3, cost = 20, lotteryDate = ''2024-03-01'', winAmount = 100\<rparr>,
       \<lparr>ticketNumber = 2, cost = 5, lotteryDate = ''2024-02-01'', winAmount = 0\<rparr>] 3 (2 ^ 30)
     = Some (Inl IndexOutOfBounds)"
    by (subst heapify.simps) (simp add: heapify_pick_def at_def Let_def)
  moreover have "heapify
      [\<lparr>ticketNumber = 1, cost = 10, lotteryDate = ''2024-01-01'', winAmount = 50\<rparr>,
       \<lparr>ticketNumber = 3, cost = 20, lotteryDate = ''2024-03-01'', winAmount = 100\<rparr>,
       \<lparr>ticketNumber = 2, cost = 5, lotteryDate = ''2024-02-01'', winAmount = 0\<rparr>] 3 (- 1)
     = Some (Inl IndexOutOfBounds)"
    by (subst heapify.simps) (simp add: heapify_pick_def at_def Let_def)
  moreover have "sint (2 * 2 ^ 30 + 1 :: 32 word) = - 2147483647"
    by simp
  ultimately show ?thesis
    by (simp only: simp_thms)
qed

section \<open>Decimal text and its conversion back\<close>












section \<open>Writing tickets and reading them back\<close>


lemma getline_to_end:
  assumes "\<not> eofbit s" "\<not> failbit s" "delim \<notin> set (buffer s)"
  shows "getline s str delim =
           (s\<lparr>buffer := [], eofbit := True, failbit := (buffer s = [])\<rparr>, buffer s)"
proof -
  have "dropWhile (\<lambda>c. c \<noteq> delim) (buffer s) = []"
    using assms(3) by auto
  then show ?thesis
    unfolding getline_def using assms(1,2) by (simp only: if_False list.case simp_thms)
qed





lemma istream_on_simps [simp]:
  "buffer (istream_on text) = text" "\<not> eofbit (istream_on text)" "\<not> failbit (istream_on text)"
  "istream_on text\<lparr>buffer := text'\<rparr> = istream_on text'"
  by (simp_all add: istream_on_def)




lemma read_lines_not_good:
  "eofbit s \<or> failbit s \<Longrightarrow> read_lines s line acc = Inr acc"
  by (subst read_lines.simps) (simp add: getline_def)

lemma read_lines_lines_of:
  assumes "\<not> eofbit s" "\<not> failbit s" "buffer s = input"
  shows "((\<exists>e. read_lines s line acc = Inl e) = (\<exists>l\<in>set (lines_of input). \<exists>e. parse_line l = Inl e))
         \<and> (\<forall>ts. read_lines s line acc = Inr ts \<longrightarrow>
               map Inr ts = map Inr acc @ map parse_line (lines_of input))"
  using assms
proof (induction input arbitrary: s line acc rule: lines_of.induct)
  case (1 input)
  show ?case
  proof (cases "input = []")
    case True
    have "getline s line (CHR 0x0A) = (s\<lparr>buffer := [], eofbit := True, failbit := True\<rparr>, [])"
      using "1.prems" True by (simp add: getline_def)
    then have "read_lines s line acc = Inr acc"
      by (subst read_lines.simps) simp
    then show ?thesis
      using True by (subst lines_of.simps, subst lines_of.simps) simp
  next
    case False
    define l where "l = takeWhile (\<lambda>c. c \<noteq> CHR 0x0A) input"
    define rest where "rest = drop 1 (dropWhile (\<lambda>c. c \<noteq> CHR 0x0A) input)"
    have lo: "lines_of input = l # lines_of rest"
      using False by (subst lines_of.simps) (simp add: l_def rest_def)
    obtain s' where g: "getline s line (CHR 0x0A) = (s', l)" "\<not> failbit s'"
      "eofbit s' \<longrightarrow> rest = []" "buffer s' = rest"
    proof (cases "dropWhile (\<lambda>c. c \<noteq> CHR 0x0A) input")
      case Nil
      have "takeWhile (\<lambda>c. c \<noteq> CHR 0x0A) input @ dropWhile (\<lambda>c. c \<noteq> CHR 0x0A) input = input"
        by (rule takeWhile_dropWhile_id)
      then have "l = input"
        unfolding Nil l_def by simp
      then show ?thesis
        using "1.prems" False Nil that
        by (simp add: getline_def rest_def del: dropWhile_eq_Nil_conv)
    next
      case (Cons d r)
      then show ?thesis
        using "1.prems" False that
        by (simp add: getline_def l_def rest_def)
    qed
    show ?thesis
    proof (cases "parse_line l")
      case (Inl e)
      then have "read_lines s line acc = Inl e"
        using g by (subst read_lines.simps) simp
      then show ?thesis
        using Inl by (auto simp: lo)
    next
      case (Inr t)
      have unf: "read_lines s line acc = read_lines s' l (acc @ [t])"
        using g Inr by (subst read_lines.simps) simp
      have rec: "((\<exists>e. read_lines s' l (acc @ [t]) = Inl e)
              = (\<exists>l\<in>set (lines_of rest). \<exists>e. parse_line l = Inl e))
         \<and> (\<forall>ts. read_lines s' l (acc @ [t]) = Inr ts \<longrightarrow>
               map Inr ts = map Inr (acc @ [t]) @ map parse_line (lines_of rest))"
      proof (cases "eofbit s'")
        case True
        then have "rest = []" using g(3) by simp
        then have "lines_of rest = []"
          by (subst lines_of.simps) simp
        then show ?thesis
          using True by (simp add: read_lines_not_good)
      next
        case F: False
        show ?thesis
          using "1.IH" [OF False, of s' l "acc @ [t]"] F g(2,4)
          unfolding rest_def by blast
      qed
      show ?thesis
        unfolding unf lo using rec Inr by auto
    qed
  qed
qed

lemma parse_line_errors:
  "parse_line l = Inl e \<Longrightarrow> e = InvalidArgument \<or> e = OutOfRange"
  by (auto simp: parse_line_def stoll_def stoi_def Let_def
      split: prod.splits sum.splits option.splits if_splits)

section \<open>When the loader fails\<close>

text \<open>
  C6 (amended). \<^verbatim>\<open>readTicketsFromFile\<close> fails with \<^verbatim>\<open>std::runtime_error\<close> when the file
  cannot be opened; on a file that opens it fails exactly when on some line one of the
  three conversions \<^verbatim>\<open>stoll\<close>, \<^verbatim>\<open>stoi\<close>, \<^verbatim>\<open>stoi\<close> of the loop body throws, and then
  with \<^verbatim>\<open>std::invalid_argument\<close> or \<^verbatim>\<open>std::out_of_range\<close>; the number of fields of a line
  is not tested. When it succeeds it returns one ticket for each line, in the order of the
  lines, each the ticket the loop body makes of its line.
\<close>

theorem readTicketsFromFile_failure:
  "(contents fs filename = None \<longrightarrow>
      readTicketsFromFile fs filename = Inl (RuntimeError (''Could not open file: '' @ filename)))
   \<and> (contents fs filename = Some input \<longrightarrow>
        ((\<exists>e. readTicketsFromFile fs filename = Inl e)
           = (\<exists>l\<in>set (lines_of input). \<exists>e. parse_line l = Inl e))
        \<and> (\<forall>tickets. readTicketsFromFile fs filename = Inr tickets \<longrightarrow>
              map parse_line (lines_of input) = map Inr tickets))
   \<and> (parse_line l = Inl e \<longrightarrow> e = InvalidArgument \<or> e = OutOfRange)"
proof -
  have "((\<exists>e. read_lines (istream_on input) [] [] = Inl e)
           = (\<exists>l\<in>set (lines_of input). \<exists>e. parse_line l = Inl e))
        \<and> (\<forall>ts. read_lines (istream_on input) [] [] = Inr ts \<longrightarrow>
               map Inr ts = map Inr [] @ map parse_line (lines_of input))"
    by (rule read_lines_lines_of) simp_all
  then have "contents fs filename = Some input \<Longrightarrow>
        ((\<exists>e. readTicketsFromFile fs filename = Inl e)
           = (\<exists>l\<in>set (lines_of input). \<exists>e. parse_line l = Inl e))
        \<and> (\<forall>tickets. readTicketsFromFile fs filename = Inr tickets \<longrightarrow>
              map parse_line (lines_of input) = map Inr tickets)"
    by (simp add: readTicketsFromFile_def)
  moreover have "contents fs filename = None \<Longrightarrow>
      readTicketsFromFile fs filename = Inl (RuntimeError (''Could not open file: '' @ filename))"
    by (simp add: readTicketsFromFile_def)
  ultimately show ?thesis
    using parse_line_errors [of l e] by blast
qed

lemmas parse_eval = parse_line_def getline_def istream_on_def stoll_def stoi_def
  strtoll_decimal_def isspace_def isdigit_def digit_value_def Let_def

theorem readTicketsFromFile_failure_witness:
  "contents \<lparr>contents = (\<lambda>name. if name = ''lottery_100.txt'' then Some ''x'' else None),
             writable = (\<lambda>name. False)\<rparr> ''lottery_100.txt'' = Some ''x''
   \<and> (\<exists>l\<in>set (lines_of ''x''). \<exists>e. parse_line l = Inl e)
   \<and> (\<exists>e. readTicketsFromFile
         \<lparr>contents = (\<lambda>name. if name = ''lottery_100.txt'' then Some ''x'' else None),
            writable = (\<lambda>name. False)\<rparr> ''lottery_100.txt'' = Inl e)
   \<and> contents \<lparr>contents = (\<lambda>name. if name = ''lottery_100.txt'' then Some ''x'' else None),
             writable = (\<lambda>name. False)\<rparr> ''lottery_500.txt'' = None
   \<and> readTicketsFromFile
         \<lparr>contents = (\<lambda>name. if name = ''lottery_100.txt'' then Some ''x'' else None),
            writable = (\<lambda>name. False)\<rparr> ''lottery_500.txt''
        = Inl (RuntimeError ''Could not open file: lottery_500.txt'')
   \<and> parse_line ''x'' = Inl InvalidArgument
   \<and> (InvalidArgument = InvalidArgument \<or> InvalidArgument = OutOfRange)"
proof -
  define fs where "fs = \<lparr>contents = (\<lambda>name. if name = ''lottery_100.txt'' then Some ''x'' else None),
             writable = (\<lambda>name. False)\<rparr>"
  have c1: "contents fs ''lottery_100.txt'' = Some ''x''" and c2: "contents fs ''lottery_500.txt'' = None"
    by (simp_all add: fs_def)
  have p: "parse_line ''x'' = Inl InvalidArgument"
    by (simp add: parse_eval)
  have l: "\<exists>l\<in>set (lines_of ''x''). \<exists>e. parse_line l = Inl e"
    using p by (subst lines_of.simps) simp
  have "\<exists>e. readTicketsFromFile fs ''lottery_100.txt'' = Inl e"
    using readTicketsFromFile_failure [of fs "''lottery_100.txt''" "''x''"] c1 l by blast
  moreover have "readTicketsFromFile fs ''lottery_500.txt''
      = Inl (RuntimeError (''Could not open file: '' @ ''lottery_500.txt''))"
    using readTicketsFromFile_failure [of fs "''lottery_500.txt''"] c2 by blast
  ultimately show ?thesis
    using c1 c2 p l unfolding fs_def by simp
qed

text \<open>
  A line of three fields, a line of six fields and a line whose numbers are followed by
  other characters are all loaded without an error. On the line of three fields the last
  \<^verbatim>\<open>getline\<close> fails and leaves the date in \<^verbatim>\<open>item\<close>, whose leading digits become the
  amount.
\<close>

theorem readTicketsFromFile_accepts_wrong_field_count:
  "readTicketsFromFile \<lparr>contents = (\<lambda>name. Some ''1,2,2024-05-01''), writable = (\<lambda>name. False)\<rparr>
       ''lottery_100.txt''
     = Inr [\<lparr>ticketNumber = 1, cost = 2, lotteryDate = ''2024-05-01'', winAmount = 2024\<rparr>]
   \<and> readTicketsFromFile
       \<lparr>contents = (\<lambda>name. Some ''1,2,2024-05-01,50,9,9''), writable = (\<lambda>name. False)\<rparr>
       ''lottery_100.txt''
     = Inr [\<lparr>ticketNumber = 1, cost = 2, lotteryDate = ''2024-05-01'', winAmount = 50\<rparr>]
   \<and> readTicketsFromFile
       \<lparr>contents = (\<lambda>name. Some ''12abc,5 apples,2024-05-01,7.5''), writable = (\<lambda>name. False)\<rparr>
       ''lottery_100.txt''
     = Inr [\<lparr>ticketNumber = 12, cost = 5, lotteryDate = ''2024-05-01'', winAmount = 7\<rparr>]"
proof -
  have end_of_file: "read_lines \<lparr>buffer = [], eofbit = True, failbit = False\<rparr> line acc = Inr acc"
    for line acc
    by (rule read_lines_not_good) simp
  have a: "parse_line ''1,2,2024-05-01''
      = Inr \<lparr>ticketNumber = 1, cost = 2, lotteryDate = ''2024-05-01'', winAmount = 2024\<rparr>"
    by (simp add: parse_eval)
  have b: "parse_line ''1,2,2024-05-01,50,9,9''
      = Inr \<lparr>ticketNumber = 1, cost = 2, lotteryDate = ''2024-05-01'', winAmount = 50\<rparr>"
    by (simp add: parse_eval)
  have c: "parse_line ''12abc,5 apples,2024-05-01,7.5''
      = Inr \<lparr>ticketNumber = 12, cost = 5, lotteryDate = ''2024-05-01'', winAmount = 7\<rparr>"
    by (simp add: parse_eval)
  have one_line: "read_lines (istream_on s) [] [] = (case parse_line s of Inl e \<Rightarrow> Inl e | Inr t \<Rightarrow> Inr [t])"
    if "s \<noteq> []" "CHR 0x0A \<notin> set s" for s
    using that getline_to_end [of "istream_on s" "CHR 0x0A" "[]"]
    by (subst read_lines.simps) (simp add: end_of_file istream_on_def split: sum.splits)
  show ?thesis
    by (simp add: readTicketsFromFile_def one_line a b c)
qed

section \<open>The order of the measurements and the table\<close>

declare table_loop.simps [simp del]

lemma load_files_list_all2:
  "load_files fs names acc = Inr arrs \<Longrightarrow>
   \<exists>loaded. arrs = acc @ loaded
     \<and> list_all2 (\<lambda>name tickets. readTicketsFromFile fs name = Inr tickets) names loaded"
proof (induction names arbitrary: acc)
  case Nil
  then show ?case by simp
next
  case (Cons name names)
  then obtain tickets where t: "readTicketsFromFile fs name = Inr tickets"
    "load_files fs names (acc @ [tickets]) = Inr arrs"
    by (auto split: sum.splits)
  from Cons.IH [OF t(2)] obtain loaded where "arrs = (acc @ [tickets]) @ loaded"
    "list_all2 (\<lambda>name tickets. readTicketsFromFile fs name = Inr tickets) names loaded"
    by blast
  then show ?case
    using t(1) by (intro exI [of _ "tickets # loaded"]) simp
qed

lemma measure_loop_shape:
  assumes s: "\<And>st arr t st'. measure_fn st arr = Some (Inr (t, st')) \<Longrightarrow>
      t = elapsed (length (calls st)) \<and> calls st' = calls st @ [(alg, arr)]
      \<and> writable (files st') = writable (files st)"
    and "measure_loop measure_fn st arrs durations = Some (Inr (ds, st'))"
  shows "ds = durations @ map elapsed [length (calls st)..<length (calls st) + length arrs]
      \<and> calls st' = calls st @ map (Pair alg) arrs
      \<and> writable (files st') = writable (files st)"
  using assms(2)
proof (induction arrs arbitrary: st durations)
  case Nil
  then show ?case by simp
next
  case (Cons arr arrs)
  from Cons.prems obtain t st1 where m: "measure_fn st arr = Some (Inr (t, st1))"
    and l: "measure_loop measure_fn st1 arrs (durations @ [t]) = Some (Inr (ds, st'))"
    by (auto split: option.splits sum.splits)
  note s1 = s [OF m]
  note r = Cons.IH [OF l]
  have "[length (calls st)..<length (calls st) + length (arr # arrs)]
      = length (calls st) # [Suc (length (calls st))..<length (calls st) + length (arr # arrs)]"
    by (rule upt_conv_Cons) simp
  then have "[length (calls st)..<length (calls st) + length (arr # arrs)]
      = length (calls st) # [length (calls st1)..<length (calls st1) + length arrs]"
    using s1 by simp
  then show ?case
    using r s1 by simp
qed

lemma measure_loop_returns:
  assumes "\<And>st arr. arr \<in> set arrs \<Longrightarrow> \<exists>r. measure_fn st arr = Some (Inr r)"
  shows "\<exists>r. measure_loop measure_fn st arrs durations = Some (Inr r)"
  using assms
proof (induction arrs arbitrary: st durations)
  case Nil
  show ?case by simp
next
  case (Cons arr arrs)
  obtain t st1 where m: "measure_fn st arr = Some (Inr (t, st1))"
    using Cons.prems [of arr st] by auto
  have "\<exists>r. measure_loop measure_fn st1 arrs (durations @ [t]) = Some (Inr r)"
    using Cons.prems by (intro Cons.IH) simp
  then show ?case
    using m by simp
qed

lemma measure_loop_total:
  assumes "\<And>st arr. \<exists>r. measure_fn st arr = Some r"
  shows "\<exists>r. measure_loop measure_fn st arrs durations = Some r"
proof (induction arrs arbitrary: st durations)
  case Nil
  show ?case by simp
next
  case (Cons arr arrs)
  obtain r where m: "measure_fn st arr = Some r"
    using assms by blast
  show ?case
  proof (cases r)
    case (Inl e)
    then show ?thesis using m by simp
  next
    case (Inr p)
    obtain t st1 where "p = (t, st1)"
      by (cases p)
    then show ?thesis
      using m Inr Cons.IH [of st1 "durations @ [t]"] by simp
  qed
qed

lemma measureStdSort_shape:
  "measureStdSort elapsed st arr = Some (Inr (t, st')) \<Longrightarrow>
   t = elapsed (length (calls st)) \<and> calls st' = calls st @ [(StdSort, arr)]
   \<and> writable (files st') = writable (files st)"
  by (auto simp: measureStdSort_def)

lemma measureBubbleSort_shape:
  "measureBubbleSort elapsed st arr = Some (Inr (t, st')) \<Longrightarrow>
   t = elapsed (length (calls st)) \<and> calls st' = calls st @ [(BubbleSort, arr)]
   \<and> writable (files st') = writable (files st)"
  by (auto simp: measureBubbleSort_def save_sorted_def Let_def split: sum.splits)

lemma measureSelectionSort_shape:
  "measureSelectionSort elapsed st arr = Some (Inr (t, st')) \<Longrightarrow>
   t = elapsed (length (calls st)) \<and> calls st' = calls st @ [(SelectionSort, arr)]
   \<and> writable (files st') = writable (files st)"
  by (auto simp: measureSelectionSort_def save_sorted_def Let_def split: sum.splits)

lemma measureHeapSort_shape:
  "measureHeapSort elapsed st arr = Some (Inr (t, st')) \<Longrightarrow>
   t = elapsed (length (calls st)) \<and> calls st' = calls st @ [(HeapSort, arr)]
   \<and> writable (files st') = writable (files st)"
  by (auto simp: measureHeapSort_def save_sorted_def Let_def split: option.splits sum.splits)

lemma measureStdSort_returns: "\<exists>r. measureStdSort elapsed st arr = Some (Inr r)"
  by (simp add: measureStdSort_def)

lemma measureBubbleSort_returns: "\<exists>r. measureBubbleSort elapsed st arr = Some (Inr r)"
  using bubbleSort_stable_all [of arr] by (auto simp: measureBubbleSort_def)

lemma measureSelectionSort_returns: "\<exists>r. measureSelectionSort elapsed st arr = Some (Inr r)"
  using selectionSort_returns [of arr] by (auto simp: measureSelectionSort_def)

lemma measureHeapSort_returns:
  "length arr < 2 ^ 30 \<Longrightarrow> \<exists>r. measureHeapSort elapsed st arr = Some (Inr r)"
  using heapSort_spec [of arr] by (auto simp: measureHeapSort_def)

lemma measureHeapSort_total: "\<exists>r. measureHeapSort elapsed st arr = Some r"
  using heapSort_sim [OF same_keys_refl, of arr]
  by (auto simp: measureHeapSort_def split: sum.splits)

lemma table_loop_rows:
  assumes "length t1 \<le> length sizes" "length t2 = length t1" "length t3 = length t1"
    "length t4 = length t1" "i \<le> length t1" "length t1 < 2 ^ 31"
  shows "table_loop sizes t1 t2 t3 t4 (of_nat i) out
           = Inr (out @ concat (map (table_row sizes t1 t2 t3 t4) [i..<length t1]))"
  using assms(5)
proof (induction "length t1 - i" arbitrary: i out)
  case 0
  then have e: "i = length t1" by simp
  have "sint (of_nat i :: 32 word) = int i"
    using assms(6) unfolding e by (rule sint_of_nat_32)
  then show ?case
    using e by (subst table_loop.simps) simp
next
  case (Suc k)
  then have i: "i < length t1" by simp
  then have "i < 2 ^ 31"
    using assms(6) by simp
  then have si: "sint (of_nat i :: 32 word) = int i"
    by (rule sint_of_nat_32)
  have nx: "(of_nat i :: 32 word) + 1 = of_nat (Suc i)"
    by simp
  have "table_loop sizes t1 t2 t3 t4 (of_nat i) out
      = table_loop sizes t1 t2 t3 t4 (of_nat (Suc i)) (out @ table_row sizes t1 t2 t3 t4 i)"
    using i assms(1-4) unfolding nx [symmetric]
    by (subst table_loop.simps) (simp add: at_def table_row_def si)
  moreover have "table_loop sizes t1 t2 t3 t4 (of_nat (Suc i)) (out @ table_row sizes t1 t2 t3 t4 i)
      = Inr ((out @ table_row sizes t1 t2 t3 t4 i)
          @ concat (map (table_row sizes t1 t2 t3 t4) [Suc i..<length t1]))"
    using Suc.hyps(2) i by (intro Suc.hyps(1)) simp_all
  ultimately show ?case
    using i by (simp add: upt_conv_Cons)
qed

lemma length_filenames: "length filenames = 16" "length arr_size = 16"
  by (simp_all add: filenames_def arr_size_def)

lemma main_run:
  assumes "load_files fs filenames [] = Inr arrs"
  shows "(\<exists>st. main elapsed fs = Some (Inr st)
     \<and> list_all2 (\<lambda>name tickets. readTicketsFromFile fs name = Inr tickets) filenames arrs
     \<and> calls st = map (Pair StdSort) arrs @ map (Pair BubbleSort) arrs
                   @ map (Pair SelectionSort) arrs @ map (Pair HeapSort) arrs
     \<and> (writable fs ''time_sorts.txt'' \<longrightarrow>
          contents (files st) ''time_sorts.txt''
            = Some (concat (map (\<lambda>i. show_int (sint (arr_size ! i))
                  @ [CHR 0x09] @ show_int (sint (elapsed i))
                  @ [CHR 0x09] @ show_int (sint (elapsed (16 + i)))
                  @ [CHR 0x09] @ show_int (sint (elapsed (32 + i)))
                  @ [CHR 0x09] @ show_int (sint (elapsed (48 + i))) @ [CHR 0x0A]) [0..<16]))))
   \<or> ((\<exists>e. main elapsed fs = Some (Inl e)) \<and> (\<exists>tickets\<in>set arrs. 2 ^ 30 \<le> length tickets))"
proof -
  have la: "list_all2 (\<lambda>name tickets. readTicketsFromFile fs name = Inr tickets) filenames arrs"
    using load_files_list_all2 [OF assms] by simp
  then have len: "length arrs = 16"
    using length_filenames(1) by (simp add: list_all2_lengthD [symmetric])
  define st0 where "st0 = \<lparr>files = fs, calls = []\<rparr>"
  define t1 where "t1 = map elapsed [0..<16]"
  define t2 where "t2 = map elapsed [16..<32]"
  define t3 where "t3 = map elapsed [32..<48]"
  define t4 where "t4 = map elapsed [48..<64]"
  obtain r1 where "measure_loop (measureStdSort elapsed) st0 arrs [] = Some (Inr r1)"
    using measure_loop_returns [of arrs "measureStdSort elapsed" st0 "[]"] measureStdSort_returns
    by blast
  then obtain d1 st1 where l1: "measure_loop (measureStdSort elapsed) st0 arrs [] = Some (Inr (d1, st1))"
    by (cases r1) simp
  have s1: "d1 = t1" "calls st1 = map (Pair StdSort) arrs" "writable (files st1) = writable fs"
    using measure_loop_shape [of "measureStdSort elapsed" elapsed StdSort st0 arrs "[]" d1 st1,
        OF measureStdSort_shape [of elapsed] l1]
    by (simp_all add: st0_def len t1_def)
  obtain r2 where "measure_loop (measureBubbleSort elapsed) st1 arrs [] = Some (Inr r2)"
    using measure_loop_returns [of arrs "measureBubbleSort elapsed" st1 "[]"]
      measureBubbleSort_returns
    by blast
  then obtain d2 st2 where l2: "measure_loop (measureBubbleSort elapsed) st1 arrs [] = Some (Inr (d2, st2))"
    by (cases r2) simp
  have s2: "d2 = t2" "calls st2 = map (Pair StdSort) arrs @ map (Pair BubbleSort) arrs"
    "writable (files st2) = writable fs"
    using measure_loop_shape [of "measureBubbleSort elapsed" elapsed BubbleSort st1 arrs "[]" d2 st2,
        OF measureBubbleSort_shape [of elapsed] l2] s1(2,3)
    by (simp_all add: len t2_def)
  obtain r3 where "measure_loop (measureSelectionSort elapsed) st2 arrs [] = Some (Inr r3)"
    using measure_loop_returns [of arrs "measureSelectionSort elapsed" st2 "[]"]
      measureSelectionSort_returns
    by blast
  then obtain d3 st3 where l3: "measure_loop (measureSelectionSort elapsed) st2 arrs [] = Some (Inr (d3, st3))"
    by (cases r3) simp
  have s3: "d3 = t3" "calls st3 = map (Pair StdSort) arrs @ map (Pair BubbleSort) arrs
      @ map (Pair SelectionSort) arrs"
    "writable (files st3) = writable fs"
    using measure_loop_shape [of "measureSelectionSort elapsed" elapsed SelectionSort st2 arrs "[]" d3 st3,
        OF measureSelectionSort_shape [of elapsed] l3] s2(2,3)
    by (simp_all add: len t3_def)
  obtain r4 where l4: "measure_loop (measureHeapSort elapsed) st3 arrs [] = Some r4"
    using measure_loop_total [of "measureHeapSort elapsed" st3 arrs "[]"] measureHeapSort_total
    by blast
  show ?thesis
  proof (cases r4)
    case (Inl e)
    have "\<not> (\<forall>tickets\<in>set arrs. length tickets < 2 ^ 30)"
    proof
      assume "\<forall>tickets\<in>set arrs. length tickets < 2 ^ 30"
      then have "\<exists>r. measure_loop (measureHeapSort elapsed) st3 arrs [] = Some (Inr r)"
        using measureHeapSort_returns by (intro measure_loop_returns) blast
      then show False
        using l4 Inl by simp
    qed
    then have "\<exists>tickets\<in>set arrs. 2 ^ 30 \<le> length tickets"
      by (simp add: not_less)
    moreover have "main elapsed fs = Some (Inl e)"
      unfolding main_def assms sum.case
      by (simp only: st0_def [symmetric] l1 l2 l3 l4 Inl option.case sum.case prod.case)
    ultimately show ?thesis
      by blast
  next
    case (Inr p)
    obtain d4 st4 where p: "p = (d4, st4)"
      by (cases p)
    have l4': "measure_loop (measureHeapSort elapsed) st3 arrs [] = Some (Inr (d4, st4))"
      using l4 Inr p by simp
    have s4: "d4 = t4" "calls st4 = map (Pair StdSort) arrs @ map (Pair BubbleSort) arrs
        @ map (Pair SelectionSort) arrs @ map (Pair HeapSort) arrs"
      "writable (files st4) = writable fs"
      using measure_loop_shape [of "measureHeapSort elapsed" elapsed HeapSort st3 arrs "[]" d4 st4,
          OF measureHeapSort_shape [of elapsed] l4'] s3(2,3)
      by (simp_all add: len t4_def)
    define table where "table = concat (map (table_row arr_size t1 t2 t3 t4) [0..<16])"
    have tl: "table_loop arr_size t1 t2 t3 t4 0 [] = Inr table"
      using table_loop_rows [of t1 arr_size t2 t3 t4 0 "[]"]
      by (simp add: t1_def t2_def t3_def t4_def length_filenames table_def)
    define st where "st = st4\<lparr>files :=
                (if writable (files st4) ''time_sorts.txt''
                 then (files st4)\<lparr>contents := (contents (files st4))(''time_sorts.txt'' \<mapsto> table)\<rparr>
                 else files st4)\<rparr>"
    have m: "main elapsed fs = Some (Inr st)"
      unfolding main_def assms sum.case
      by (simp only: st0_def [symmetric] l1 l2 l3 l4' s1(1) s2(1) s3(1) s4(1) tl st_def
          option.case sum.case prod.case)
    have c: "calls st = map (Pair StdSort) arrs @ map (Pair BubbleSort) arrs
                     @ map (Pair SelectionSort) arrs @ map (Pair HeapSort) arrs"
      by (simp add: st_def s4(2))
    have row: "table_row arr_size t1 t2 t3 t4 i = show_int (sint (arr_size ! i))
                    @ [CHR 0x09] @ show_int (sint (elapsed i))
                    @ [CHR 0x09] @ show_int (sint (elapsed (16 + i)))
                    @ [CHR 0x09] @ show_int (sint (elapsed (32 + i)))
                    @ [CHR 0x09] @ show_int (sint (elapsed (48 + i))) @ [CHR 0x0A]"
      if "i < 16" for i
      using that
      by (simp add: table_row_def t1_def t2_def t3_def t4_def nth_map_upt del: upt_rec_numeral)
    have "table = concat (map (\<lambda>i. show_int (sint (arr_size ! i))
                    @ [CHR 0x09] @ show_int (sint (elapsed i))
                    @ [CHR 0x09] @ show_int (sint (elapsed (16 + i)))
                    @ [CHR 0x09] @ show_int (sint (elapsed (32 + i)))
                    @ [CHR 0x09] @ show_int (sint (elapsed (48 + i))) @ [CHR 0x0A]) [0..<16])"
      unfolding table_def by (rule arg_cong [where f = concat], rule map_cong) (simp_all add: row)
    then have t: "writable fs ''time_sorts.txt'' \<longrightarrow>
            contents (files st) ''time_sorts.txt''
              = Some (concat (map (\<lambda>i. show_int (sint (arr_size ! i))
                    @ [CHR 0x09] @ show_int (sint (elapsed i))
                    @ [CHR 0x09] @ show_int (sint (elapsed (16 + i)))
                    @ [CHR 0x09] @ show_int (sint (elapsed (32 + i)))
                    @ [CHR 0x09] @ show_int (sint (elapsed (48 + i))) @ [CHR 0x0A]) [0..<16]))"
      using s4(3) by (simp add: st_def)
    show ?thesis
      using m la c t by blast
  qed
qed

lemma read_lines_one_line:
  assumes "s \<noteq> []" "CHR 0x0A \<notin> set s"
  shows "read_lines (istream_on s) [] [] = (case parse_line s of Inl e \<Rightarrow> Inl e | Inr t \<Rightarrow> Inr [t])"
proof -
  have "read_lines \<lparr>buffer = [], eofbit = True, failbit = False\<rparr> line acc = Inr acc" for line acc
    by (rule read_lines_not_good) simp
  then show ?thesis
    using assms getline_to_end [of "istream_on s" "CHR 0x0A" "[]"]
    by (subst read_lines.simps) (simp add: istream_on_def split: sum.splits)
qed

lemma read_lines_empty: "read_lines (istream_on []) [] [] = Inr []"
  by (subst read_lines.simps) (simp add: getline_def istream_on_def)

lemma filenames_eval:
  "filenames = [''lottery_100.txt'', ''lottery_500.txt'', ''lottery_1000.txt'', ''lottery_2500.txt'',
     ''lottery_5000.txt'', ''lottery_7500.txt'', ''lottery_10000.txt'', ''lottery_12500.txt'',
     ''lottery_15000.txt'', ''lottery_20000.txt'', ''lottery_30000.txt'', ''lottery_40000.txt'',
     ''lottery_50000.txt'', ''lottery_60000.txt'', ''lottery_80000.txt'', ''lottery_100000.txt'']"
  by (simp add: filenames_def arr_size_def show_int_def show_nat.simps digit_char_def
      char_of_def bit_0)

lemma load_files_from_list_all2:
  "list_all2 (\<lambda>name tickets. readTicketsFromFile fs name = Inr tickets) names loaded \<Longrightarrow>
   load_files fs names acc = Inr (acc @ loaded)"
proof (induction names arbitrary: acc loaded)
  case Nil
  then show ?case by simp
next
  case (Cons name names)
  then obtain tickets rest where l: "loaded = tickets # rest"
    "readTicketsFromFile fs name = Inr tickets"
    "list_all2 (\<lambda>name tickets. readTicketsFromFile fs name = Inr tickets) names rest"
    by (auto simp: list_all2_Cons1)
  show ?case
    using Cons.IH [OF l(3), of "acc @ [tickets]"] l(1,2) by simp
qed

lemma load_files_example:
  "load_files \<lparr>contents = (\<lambda>name. if name = ''lottery_500.txt'' then Some ''7,1,2024-05-01,3''
                                    else Some []),
               writable = (\<lambda>name. True)\<rparr> filenames []
   = Inr [[], [\<lparr>ticketNumber = 7, cost = 1, lotteryDate = ''2024-05-01'', winAmount = 3\<rparr>],
          [], [], [], [], [], [], [], [], [], [], [], [], [], []]"
proof -
  define fs where "fs = \<lparr>contents = (\<lambda>name. if name = ''lottery_500.txt''
      then Some ''7,1,2024-05-01,3'' else Some []), writable = (\<lambda>name. True)\<rparr>"
  have p: "parse_line ''7,1,2024-05-01,3''
      = Inr \<lparr>ticketNumber = 7, cost = 1, lotteryDate = ''2024-05-01'', winAmount = 3\<rparr>"
    by (simp add: parse_eval)
  have one: "read_lines (istream_on ''7,1,2024-05-01,3'') [] []
      = Inr [\<lparr>ticketNumber = 7, cost = 1, lotteryDate = ''2024-05-01'', winAmount = 3\<rparr>]"
    by (subst read_lines_one_line) (simp_all add: p)
  have r500: "readTicketsFromFile fs ''lottery_500.txt''
      = Inr [\<lparr>ticketNumber = 7, cost = 1, lotteryDate = ''2024-05-01'', winAmount = 3\<rparr>]"
    by (simp add: fs_def readTicketsFromFile_def one)
  have other: "readTicketsFromFile fs name = Inr []" if "name \<noteq> ''lottery_500.txt''" for name
    using that by (simp add: fs_def readTicketsFromFile_def read_lines_empty)
  have "list_all2 (\<lambda>name tickets. readTicketsFromFile fs name = Inr tickets) filenames
      [[], [\<lparr>ticketNumber = 7, cost = 1, lotteryDate = ''2024-05-01'', winAmount = 3\<rparr>],
          [], [], [], [], [], [], [], [], [], [], [], [], [], []]"
    unfolding filenames_eval by (simp add: r500 other)
  from load_files_from_list_all2 [OF this, of "[]"] show ?thesis
    unfolding fs_def by simp
qed

text \<open>
  C4 (amended). When all sixteen datasets load, \<^verbatim>\<open>main\<close> measures the reference sort on
  every dataset in the order of the size sweep, then bubble sort on every dataset, then
  selection sort on every dataset, then heap sort on every dataset; each call receives
  the dataset as the loader returned it. \<^verbatim>\<open>time_sorts.txt\<close>, when it can be opened, holds
  one line for each of the sixteen sizes, in the order of the sweep, which is ascending:
  the size, then the durations of the reference sort, bubble sort, selection sort and heap
  sort on that dataset, separated by tabs. The one run that does not end so is a run in
  which heap sort reads outside a vector, and then some dataset file holds \<open>2^30\<close> tickets
  or more.
\<close>

theorem main_runs_algorithm_by_algorithm:
  assumes "load_files fs filenames [] = Inr arrs_tickets"
  shows "((\<exists>st. main elapsed fs = Some (Inr st)
     \<and> list_all2 (\<lambda>name tickets. readTicketsFromFile fs name = Inr tickets) filenames arrs_tickets
     \<and> calls st = map (Pair StdSort) arrs_tickets @ map (Pair BubbleSort) arrs_tickets
                   @ map (Pair SelectionSort) arrs_tickets @ map (Pair HeapSort) arrs_tickets
     \<and> (writable fs ''time_sorts.txt'' \<longrightarrow>
          contents (files st) ''time_sorts.txt''
            = Some (concat (map (\<lambda>i. show_int (sint (arr_size ! i))
                  @ [CHR 0x09] @ show_int (sint (elapsed i))
                  @ [CHR 0x09] @ show_int (sint (elapsed (16 + i)))
                  @ [CHR 0x09] @ show_int (sint (elapsed (32 + i)))
                  @ [CHR 0x09] @ show_int (sint (elapsed (48 + i))) @ [CHR 0x0A]) [0..<16]))))
      \<or> ((\<exists>e. main elapsed fs = Some (Inl e))
          \<and> (\<exists>tickets\<in>set arrs_tickets. 2 ^ 30 \<le> length tickets)))
     \<and> length arr_size = 16 \<and> length arrs_tickets = 16
     \<and> sorted_wrt (<) (map sint arr_size)"
proof -
  have "sorted_wrt (<) (map sint arr_size)"
    by (simp add: arr_size_def)
  moreover have "length arrs_tickets = 16"
    using load_files_list_all2 [OF assms] length_filenames(1)
    by (auto dest: list_all2_lengthD)
  ultimately show ?thesis
    using main_run [OF assms, of elapsed] length_filenames(2) by blast
qed

lemma load_files_example_small:
  "\<not> (\<exists>tickets\<in>set [[], [\<lparr>ticketNumber = 7, cost = 1, lotteryDate = ''2024-05-01'', winAmount = 3\<rparr>],
          [], [], [], [], [], [], [], [], [], [], [], [], [], []]. 2 ^ 30 \<le> length tickets)"
  by simp

theorem main_runs_algorithm_by_algorithm_witness:
  "load_files \<lparr>contents = (\<lambda>name. if name = ''lottery_500.txt'' then Some ''7,1,2024-05-01,3''
                                    else Some []),
               writable = (\<lambda>name. True)\<rparr> filenames []
     = Inr [[], [\<lparr>ticketNumber = 7, cost = 1, lotteryDate = ''2024-05-01'', winAmount = 3\<rparr>],
          [], [], [], [], [], [], [], [], [], [], [], [], [], []]
   \<and> (\<exists>st. main (\<lambda>k. of_nat k)
          \<lparr>contents = (\<lambda>name. if name = ''lottery_500.txt'' then Some ''7,1,2024-05-01,3''
                                    else Some []),
               writable = (\<lambda>name. True)\<rparr> = Some (Inr st)
        \<and> length (calls st) = 64
        \<and> take 3 (calls st) = [(StdSort, []),
             (StdSort, [\<lparr>ticketNumber = 7, cost = 1, lotteryDate = ''2024-05-01'', winAmount = 3\<rparr>]),
             (StdSort, [])]
        \<and> take 3 (drop 16 (calls st)) = [(BubbleSort, []),
             (BubbleSort, [\<lparr>ticketNumber = 7, cost = 1, lotteryDate = ''2024-05-01'', winAmount = 3\<rparr>]),
             (BubbleSort, [])])"
proof -
  obtain st where "main (\<lambda>k. of_nat k)
          \<lparr>contents = (\<lambda>name. if name = ''lottery_500.txt'' then Some ''7,1,2024-05-01,3''
                                    else Some []),
               writable = (\<lambda>name. True)\<rparr> = Some (Inr st)"
    "calls st = map (Pair StdSort) [[], [\<lparr>ticketNumber = 7, cost = 1, lotteryDate = ''2024-05-01'', winAmount = 3\<rparr>],
          [], [], [], [], [], [], [], [], [], [], [], [], [], []]
      @ map (Pair BubbleSort) [[], [\<lparr>ticketNumber = 7, cost = 1, lotteryDate = ''2024-05-01'', winAmount = 3\<rparr>],
          [], [], [], [], [], [], [], [], [], [], [], [], [], []]
      @ map (Pair SelectionSort) [[], [\<lparr>ticketNumber = 7, cost = 1, lotteryDate = ''2024-05-01'', winAmount = 3\<rparr>],
          [], [], [], [], [], [], [], [], [], [], [], [], [], []]
      @ map (Pair HeapSort) [[], [\<lparr>ticketNumber = 7, cost = 1, lotteryDate = ''2024-05-01'', winAmount = 3\<rparr>],
          [], [], [], [], [], [], [], [], [], [], [], [], [], []]"
    using main_runs_algorithm_by_algorithm [OF load_files_example, of "\<lambda>k. of_nat k"]
      load_files_example_small
    by blast
  then show ?thesis
    using load_files_example by (intro conjI exI [of _ st]) simp_all
qed

text \<open>
  With a ticket in the dataset of size 500 only, the second call measured is the reference
  sort on that dataset, not bubble sort on the first dataset: the calls are not made size
  by size.
\<close>

theorem main_not_size_by_size:
  "\<exists>st. main (\<lambda>k. 0)
          \<lparr>contents = (\<lambda>name. if name = ''lottery_500.txt'' then Some ''7,1,2024-05-01,3''
                                    else Some []),
               writable = (\<lambda>name. True)\<rparr> = Some (Inr st)
     \<and> calls st ! 1
         = (StdSort, [\<lparr>ticketNumber = 7, cost = 1, lotteryDate = ''2024-05-01'', winAmount = 3\<rparr>])
     \<and> calls st \<noteq> concat (map (\<lambda>arr. [(StdSort, arr), (BubbleSort, arr), (SelectionSort, arr), (HeapSort, arr)])
           [[], [\<lparr>ticketNumber = 7, cost = 1, lotteryDate = ''2024-05-01'', winAmount = 3\<rparr>],
            [], [], [], [], [], [], [], [], [], [], [], [], [], []])"
proof -
  obtain st where st: "main (\<lambda>k. 0)
          \<lparr>contents = (\<lambda>name. if name = ''lottery_500.txt'' then Some ''7,1,2024-05-01,3''
                                    else Some []),
               writable = (\<lambda>name. True)\<rparr> = Some (Inr st)"
    "calls st = map (Pair StdSort) [[], [\<lparr>ticketNumber = 7, cost = 1, lotteryDate = ''2024-05-01'', winAmount = 3\<rparr>],
          [], [], [], [], [], [], [], [], [], [], [], [], [], []]
      @ map (Pair BubbleSort) [[], [\<lparr>ticketNumber = 7, cost = 1, lotteryDate = ''2024-05-01'', winAmount = 3\<rparr>],
          [], [], [], [], [], [], [], [], [], [], [], [], [], []]
      @ map (Pair SelectionSort) [[], [\<lparr>ticketNumber = 7, cost = 1, lotteryDate = ''2024-05-01'', winAmount = 3\<rparr>],
          [], [], [], [], [], [], [], [], [], [], [], [], [], []]
      @ map (Pair HeapSort) [[], [\<lparr>ticketNumber = 7, cost = 1, lotteryDate = ''2024-05-01'', winAmount = 3\<rparr>],
          [], [], [], [], [], [], [], [], [], [], [], [], [], []]"
    using main_run [OF load_files_example, of "\<lambda>k. 0"] load_files_example_small by blast
  have "calls st ! 1
         = (StdSort, [\<lparr>ticketNumber = 7, cost = 1, lotteryDate = ''2024-05-01'', winAmount = 3\<rparr>])"
    unfolding st(2) by simp
  moreover have "calls st \<noteq> concat (map (\<lambda>arr. [(StdSort, arr), (BubbleSort, arr), (SelectionSort, arr), (HeapSort, arr)])
           [[], [\<lparr>ticketNumber = 7, cost = 1, lotteryDate = ''2024-05-01'', winAmount = 3\<rparr>],
            [], [], [], [], [], [], [], [], [], [], [], [], [], []])"
    unfolding st(2) by simp
  ultimately show ?thesis
    using st(1) by blast
qed

end
